theory Spec2Isabelle
  imports Main "HOL-Library.Sublist"
begin

section \<open>Python primitives used by the documentation server\<close>

text \<open>
  Strings are ASCII character lists. \<open>lower\<close> is \<^verbatim>\<open>str.lower\<close> on ASCII text,
  \<open>str_in sub s\<close> is \<^verbatim>\<open>sub in s\<close>, \<open>str_count s sub\<close> is \<^verbatim>\<open>s.count(sub)\<close>
  (non-overlapping occurrences, scanned from the left; the empty pattern occurs
  \<open>len(s) + 1\<close> times), \<open>endswith s e\<close> is \<^verbatim>\<open>s.endswith(e)\<close>.
\<close>

definition char_lower :: "char \<Rightarrow> char" where
  "char_lower c =
     (case map_of (zip ''ABCDEFGHIJKLMNOPQRSTUVWXYZ'' ''abcdefghijklmnopqrstuvwxyz'') c of
        Some d \<Rightarrow> d | None \<Rightarrow> c)"

definition lower :: "string \<Rightarrow> string" where
  "lower s = map char_lower s"

fun str_in :: "string \<Rightarrow> string \<Rightarrow> bool" where
  "str_in sub [] = (sub = [])"
| "str_in sub (c # cs) = (prefix sub (c # cs) \<or> str_in sub cs)"


definition endswith :: "string \<Rightarrow> string \<Rightarrow> bool" where
  "endswith s e = (length e \<le> length s \<and> drop (length s - length e) s = e)"

definition startswith :: "string \<Rightarrow> string \<Rightarrow> bool" where
  "startswith s p = prefix p s"

text \<open>
  \<^verbatim>\<open>any(f(x) for x in xs)\<close> is \<open>list_ex f xs\<close>. A \<^verbatim>\<open>dict\<close> keeps its keys in insertion
  order, so it is an association list with distinct keys: \<open>dict_set\<close> is
  \<^verbatim>\<open>d[k] = v\<close> (an existing key keeps its place, a new key goes last), \<open>dict_del\<close> is
  \<^verbatim>\<open>del d[k]\<close>, \<open>map_of d k\<close> is the lookup and \<open>k \<in> set (map fst d)\<close> is \<^verbatim>\<open>k in d\<close>.
\<close>

fun dict_set :: "('k \<times> 'v) list \<Rightarrow> 'k \<Rightarrow> 'v \<Rightarrow> ('k \<times> 'v) list" where
  "dict_set [] k v = [(k, v)]"
| "dict_set (e # d) k v = (if fst e = k then (k, v) # d else e # dict_set d k v)"

definition dict_del :: "('k \<times> 'v) list \<Rightarrow> 'k \<Rightarrow> ('k \<times> 'v) list" where
  "dict_del d k = filter (\<lambda>e. fst e \<noteq> k) d"

datatype py_error = StopIteration

section \<open>Data model\<close>

text \<open>
  The page dictionary built by \<^verbatim>\<open>fetch_page\<close> and \<^verbatim>\<open>get_memcached_doc_data\<close>.
\<close>

record page_data =
  url :: string
  title :: string
  content :: string
  links :: "string list"
  success :: bool

text \<open>
  What the program takes from its libraries and from the network, as parameters:
  \<^item> \<open>urlparse\<close>: \<^verbatim>\<open>urllib.parse.urlparse\<close>, of which the program reads \<open>netloc\<close> and \<open>path\<close>;
    it is taken to return on every URL it is given (the library raises \<open>ValueError\<close> on
    a malformed bracketed host);
  \<^item> \<open>quote\<close>: \<^verbatim>\<open>requests.utils.quote\<close>;
  \<^item> \<open>md5_hexdigest\<close>: \<^verbatim>\<open>hashlib.md5(s.encode()).hexdigest()\<close>;
  \<^item> \<open>http_get n u\<close>: what the \<open>n\<close>-th HTTP request of the process, sent to \<open>u\<close> by
    \<^verbatim>\<open>fetch_page\<close>, comes back as once parsed: an exception, or the title, the text and
    the absolute link targets of the page;
  \<^item> \<open>search_page n u\<close>: the absolute link targets on the site's search page when the
    \<open>n\<close>-th request fetches it at \<open>u\<close>, or \<open>None\<close> when that request raises or its
    status is not 200.
\<close>

record parsed_url =
  netloc :: string
  path :: string

datatype response =
  RequestException string
| OtherException string
| Html string string "string list"

record externals =
  urlparse :: "string \<Rightarrow> parsed_url"
  quote :: "string \<Rightarrow> string"
  md5_hexdigest :: "string \<Rightarrow> string"
  http_get :: "nat \<Rightarrow> string \<Rightarrow> response"
  search_page :: "nat \<Rightarrow> string \<Rightarrow> string list option"

text \<open>
  The module-level mutable state: the two cache dictionaries, the set of discovered
  URLs, and the number of HTTP requests sent so far (which request comes next).
\<close>

record globals =
  page_cache :: "(string \<times> page_data) list"
  url_to_cache_key :: "(string \<times> string) list"
  discovered_urls :: "string set"
  requests_sent :: nat

definition CACHE_SIZE :: int where
  "CACHE_SIZE = 1000"

section \<open>The page cache\<close>

text \<open>
  \<^verbatim>\<open>add_to_cache\<close>, with the capacity \<^verbatim>\<open>CACHE_SIZE\<close> as the parameter \<open>cap\<close>.
  \<^verbatim>\<open>next(iter(page_cache))\<close> raises \<open>StopIteration\<close> on an empty dictionary.
\<close>

definition cache_store :: "externals \<Rightarrow> globals \<Rightarrow> string \<Rightarrow> page_data \<Rightarrow> globals" where
  "cache_store ext g u pd =
     g\<lparr>page_cache := dict_set (page_cache g) u pd,
       url_to_cache_key := dict_set (url_to_cache_key g) u (take 8 (md5_hexdigest ext u))\<rparr>"

definition add_to_cache ::
  "externals \<Rightarrow> int \<Rightarrow> globals \<Rightarrow> string \<Rightarrow> page_data \<Rightarrow> py_error + globals" where
  "add_to_cache ext cap g u pd =
     (if cap \<le> int (length (page_cache g)) then
        (case page_cache g of
           [] \<Rightarrow> Inl StopIteration
         | oldest # _ \<Rightarrow>
             Inr (cache_store ext
                    (g\<lparr>page_cache := dict_del (page_cache g) (fst oldest),
                       url_to_cache_key := dict_del (url_to_cache_key g) (fst oldest)\<rparr>) u pd))
      else Inr (cache_store ext g u pd))"

text \<open>A sequence of \<^verbatim>\<open>add_to_cache\<close> calls; an exception ends it.\<close>

fun add_all ::
  "externals \<Rightarrow> int \<Rightarrow> globals \<Rightarrow> (string \<times> page_data) list \<Rightarrow> py_error + globals" where
  "add_all ext cap g [] = Inr g"
| "add_all ext cap g (p # ps) =
     (case add_to_cache ext cap g (fst p) (snd p) of
        Inl e \<Rightarrow> Inl e
      | Inr g' \<Rightarrow> add_all ext cap g' ps)"

text \<open>The place of a key in the eviction order: the number of keys before it.\<close>

definition index_of :: "'k \<Rightarrow> 'k list \<Rightarrow> nat" where
  "index_of k ks = length (takeWhile (\<lambda>x. x \<noteq> k) ks)"

section \<open>URL classifier\<close>

definition DRUPAL_BASE_URL :: string where
  "DRUPAL_BASE_URL = ''https://docs.acquia.com/''"

definition MAIN_DOC_URLS :: "string list" where
  "MAIN_DOC_URLS =
     [''https://docs.acquia.com/acquia-source/overview'',
      ''https://docs.acquia.com/campaign-studio/overview'',
      ''https://docs.acquia.com/content-optimization/overview'',
      ''https://docs.acquia.com/conversion-optimization/overview'',
      ''https://docs.acquia.com/customer-data-platform/overview-0'',
      ''https://docs.acquia.com/acquia-cloud-platform/overview'',
      ''https://docs.acquia.com/acquia-dam/overview'',
      ''https://docs.acquia.com/drupal-starter-kits/overview'',
      ''https://docs.acquia.com/site-factory/overview'',
      ''https://docs.acquia.com/web-governance/overview'']"

definition MAX_PAGES_PER_PRODUCT :: int where
  "MAX_PAGES_PER_PRODUCT = 75"

definition MEMCACHED_DOC_URL :: string where
  "MEMCACHED_DOC_URL =
     ''https://docs.acquia.com/acquia-cloud-platform/enabling-memcached-cloud-platform''"

definition excluded_patterns :: "string list" where
  "excluded_patterns =
     [''/user/login'', ''/user/register'', ''/user/password'', ''/user/logout'',
      ''/admin/'', ''/taxonomy/term/'', ''/node/add'',
      ''/contact'', ''/rss.xml'', ''/sitemap.xml'']"

definition excluded_extensions :: "string list" where
  "excluded_extensions =
     [''.jpg'', ''.jpeg'', ''.png'', ''.gif'', ''.pdf'', ''.zip'', ''.tar.gz'', ''.css'', ''.js'']"

definition problem_patterns :: "string list" where
  "problem_patterns = [''/themes/'', ''/modules/'', ''/core/'', ''/sites/default'']"

text \<open>
  \<^verbatim>\<open>is_docs_url\<close>: the host check, the two deny-lists on the lowered path, then the
  guard on the path's shape (\<^verbatim>\<open>startswith('/') and len(path_lower) > 1\<close>) around the
  third deny-list; everything else falls through to \<^verbatim>\<open>return False\<close>.
\<close>

definition is_docs_url :: "externals \<Rightarrow> string \<Rightarrow> bool" where
  "is_docs_url ext u =
     (let parsed = urlparse ext u in
      if netloc parsed \<noteq> netloc (urlparse ext DRUPAL_BASE_URL) then False
      else
        let path_lower = lower (path parsed) in
        if list_ex (\<lambda>pattern. str_in pattern path_lower) excluded_patterns then False
        else if list_ex (\<lambda>e. endswith path_lower e) excluded_extensions then False
        else if startswith path_lower ''/'' \<and> 1 < length path_lower then
          (if \<not> list_ex (\<lambda>pattern. str_in pattern path_lower) problem_patterns then True
           else False)
        else False)"

definition get_product_area :: "externals \<Rightarrow> string \<Rightarrow> string" where
  "get_product_area ext u =
     (let p = lower (path (urlparse ext u)) in
      if str_in ''/acquia-source'' p then ''acquia-source''
      else if str_in ''/campaign-studio'' p then ''campaign-studio''
      else if str_in ''/content-optimization'' p then ''content-optimization''
      else if str_in ''/conversion-optimization'' p then ''conversion-optimization''
      else if str_in ''/customer-data-platform'' p then ''customer-data-platform''
      else if str_in ''/acquia-cloud-platform'' p then ''acquia-cloud-platform''
      else if str_in ''/acquia-dam'' p then ''acquia-dam''
      else if str_in ''/drupal-starter-kits'' p then ''drupal-starter-kits''
      else if str_in ''/site-factory'' p then ''site-factory''
      else if str_in ''/web-governance'' p then ''web-governance''
      else ''general'')"

text \<open>The values \<^verbatim>\<open>get_product_area\<close> can return.\<close>

definition product_areas :: "string list" where
  "product_areas =
     [''acquia-source'', ''campaign-studio'', ''content-optimization'',
      ''conversion-optimization'', ''customer-data-platform'', ''acquia-cloud-platform'',
      ''acquia-dam'', ''drupal-starter-kits'', ''site-factory'', ''web-governance'',
      ''general'']"

section \<open>Relevance engine\<close>

text \<open>
  \<^verbatim>\<open>str.split()\<close> cuts at runs of whitespace and yields no empty word;
  \<^verbatim>\<open>str.split(sep)\<close> cuts at every separator; \<^verbatim>\<open>str.strip()\<close> removes whitespace at
  both ends; \<^verbatim>\<open>sep.join(xs)\<close>.
\<close>

definition is_space :: "char \<Rightarrow> bool" where
  "is_space c =
     (c \<in> set [CHR 0x09, CHR 0x0A, CHR 0x0B, CHR 0x0C, CHR 0x0D,
                CHR 0x1C, CHR 0x1D, CHR 0x1E, CHR 0x1F, CHR 0x20])"

fun ws_words :: "string \<Rightarrow> string \<Rightarrow> string list" where
  "ws_words w [] = (if w = [] then [] else [w])"
| "ws_words w (c # cs) =
     (if is_space c then (if w = [] then ws_words [] cs else w # ws_words [] cs)
      else ws_words (w @ [c]) cs)"

definition split_ws :: "string \<Rightarrow> string list" where
  "split_ws s = ws_words [] s"









definition MEMCACHED_DOC_CONTENT :: string where
  "MEMCACHED_DOC_CONTENT =
     ''# Enabling Memcached on Cloud Platform'' @ [CHR 0x0A] @
     [CHR 0x0A] @
     ''To enable Memcached on your website hosted by Cloud Platform, you must install the Memcache API and Integration module in your codebase, and configure the module for use.'' @ [CHR 0x0A] @
     [CHR 0x0A] @
     ''## Configuration for the current Drupal version'' @ [CHR 0x0A] @
     [CHR 0x0A] @
     ''For Memcached to function, you must provide additional configuration code that enables autoloading, and identifies Memcached as an alternative cache back-end.'' @ [CHR 0x0A] @
     [CHR 0x0A] @
     ''To configure your website for Memcached, make the following changes to your codebase, depending on your subscription type:'' @ [CHR 0x0A] @
     [CHR 0x0A] @
     ''### For Cloud Classic:'' @ [CHR 0x0A] @
     [CHR 0x0A] @
     ''1. Download the Memcache API and Integration module, and then add the module to your codebase in the modules/contrib/memcache directory. Acquia recommends that you use Composer to install the module:'' @ [CHR 0x0A] @
     ''   ```'' @ [CHR 0x0A] @
     ''   composer require drupal/memcache'' @ [CHR 0x0A] @
     ''   ```'' @ [CHR 0x0A] @
     [CHR 0x0A] @
     ''2. For Cloud Classic, do the following:'' @ [CHR 0x0A] @
     ''   '' @ [CHR 0x0A] @
     ''   a. Add the Composer package that contains the Acquia Memcache settings to your project:'' @ [CHR 0x0A] @
     ''   ```'' @ [CHR 0x0A] @
     ''   composer require acquia/memcache-settings'' @ [CHR 0x0A] @
     ''   ```'' @ [CHR 0x0A] @
     ''   '' @ [CHR 0x0A] @
     ''   b. For each website that requires Memcached, edit the Cloud Platform database require line in settings.php with a PHP require_once statement, similar to the following example:'' @ [CHR 0x0A] @
     ''   ```php'' @ [CHR 0x0A] @
     ''   if (file_exists('/var/www/site-php')) {'' @ [CHR 0x0A] @
     ''      require('/var/www/site-php/mysite/mysite-settings.inc');'' @ [CHR 0x0A] @
     ''      // Memcached settings for Acquia Hosting'' @ [CHR 0x0A] @
     ''      $memcache_settings_file = DRUPAL_ROOT . \"/../vendor/acquia/memcache-settings/memcache.settings.php\";'' @ [CHR 0x0A] @
     ''      if (file_exists($memcache_settings_file)) {'' @ [CHR 0x0A] @
     ''        require_once $memcache_settings_file;'' @ [CHR 0x0A] @
     ''      }'' @ [CHR 0x0A] @
     ''   }'' @ [CHR 0x0A] @
     ''   ```'' @ [CHR 0x0A] @
     [CHR 0x0A] @
     ''3. Rebuild caches by running the following command, replacing [example.com] with the domain name of your website:'' @ [CHR 0x0A] @
     ''   ```'' @ [CHR 0x0A] @
     ''   drush cr --uri=[example.com]'' @ [CHR 0x0A] @
     ''   ```'' @ [CHR 0x0A] @
     [CHR 0x0A] @
     ''4. Truncate all cache_ tables in the database for the website.'' @ [CHR 0x0A] @
     [CHR 0x0A] @
     ''### For Cloud Next:'' @ [CHR 0x0A] @
     ''For Cloud Next, you do not need to add anything to your settings.php file as the configuration logic is already included in Cloud Next. If you already have code in settings.php that enables Memcache integration with Cloud Platform, you can opt to remove it.'' @ [CHR 0x0A] @
     [CHR 0x0A] @
     ''## Important Notes:'' @ [CHR 0x0A] @
     ''- Do not edit the memcache_key_prefix or memcache_servers settings, as Cloud Platform adds the correct values in Acquia-specific code.'' @ [CHR 0x0A] @
     ''- Test any procedures on a non-production environment before implementing them on production.'' @ [CHR 0x0A] @
     ''- The same steps must be used for CD environments because CD environments are not supported in Cloud Next.'' @ [CHR 0x0A] @
     [CHR 0x0A] @
     ''Source: https://docs.acquia.com/acquia-cloud-platform/enabling-memcached-cloud-platform'' @ [CHR 0x0A]"

definition get_memcached_doc_data :: page_data where
  "get_memcached_doc_data =
     \<lparr>url = MEMCACHED_DOC_URL, title = ''Enabling Memcached on Cloud Platform'',
      content = MEMCACHED_DOC_CONTENT, links = [], success = True\<rparr>"









section \<open>Page fetcher\<close>

text \<open>
  \<^verbatim>\<open>fetch_page\<close>. A cached page is returned as it is. Otherwise one HTTP request is
  sent; the request, the size check and the parsing of the page are \<open>http_get\<close>. From the
  link targets found, the function keeps those that are documentation URLs and differ
  from the page's own URL, registers them as discovered, and removes duplicates
  (\<^verbatim>\<open>list(set(links))\<close>, whose order Python does not fix: \<open>remdups\<close> keeps that of
  \<open>http_get\<close>). The page is stored with \<^verbatim>\<open>add_to_cache\<close>; whatever is raised on the
  way becomes a page with \<open>success = False\<close>.
\<close>

definition network_error_page :: "string \<Rightarrow> string \<Rightarrow> page_data" where
  "network_error_page u e =
     \<lparr>url = u, title = ''Network Error'', content = ''Network error: '' @ e,
      links = [], success = False\<rparr>"

definition parse_error_page :: "string \<Rightarrow> string \<Rightarrow> page_data" where
  "parse_error_page u e =
     \<lparr>url = u, title = ''Parse Error'', content = ''Parse error: '' @ e,
      links = [], success = False\<rparr>"

definition fetch_page :: "externals \<Rightarrow> globals \<Rightarrow> string \<Rightarrow> page_data \<times> globals" where
  "fetch_page ext g u =
     (case map_of (page_cache g) u of
        Some pd \<Rightarrow> (pd, g)
      | None \<Rightarrow>
          (let g1 = g\<lparr>requests_sent := requests_sent g + 1\<rparr> in
           case http_get ext (requests_sent g) u of
             RequestException e \<Rightarrow> (network_error_page u e, g1)
           | OtherException e \<Rightarrow> (parse_error_page u e, g1)
           | Html t c hrefs \<Rightarrow>
               (let found = filter (\<lambda>full_url. is_docs_url ext full_url \<and> full_url \<noteq> u) hrefs;
                    g2 = g1\<lparr>discovered_urls := discovered_urls g1 \<union> set found\<rparr>;
                    result = \<lparr>url = u, title = t, content = c, links = remdups found,
                              success = True\<rparr>
                in case add_to_cache ext CACHE_SIZE g2 u result of
                     Inr g3 \<Rightarrow> (result, g3)
                   | Inl StopIteration \<Rightarrow> (parse_error_page u [], g2))))"

text \<open>
  \<^verbatim>\<open>initialize_memcached_cache\<close>, which \<^verbatim>\<open>main\<close> runs before serving: the pinned
  document is put in the cache.
\<close>

definition initialize_memcached_cache :: "externals \<Rightarrow> globals \<Rightarrow> py_error + globals" where
  "initialize_memcached_cache ext g =
     add_to_cache ext CACHE_SIZE g MEMCACHED_DOC_URL get_memcached_doc_data"

section \<open>Crawler\<close>

text \<open>
  The local state of \<^verbatim>\<open>crawl_docs\<close> together with the module state \<open>glob\<close>. A
  frontier item is \<^verbatim>\<open>(url, depth, product_hint)\<close>.
\<close>

record crawl_state =
  to_visit :: "(string \<times> int \<times> string) list"
  visited :: "string set"
  all_pages :: "(string \<times> page_data) list"
  product_page_counts :: "(string \<times> int) list"
  glob :: globals

definition DRUPAL_DOCS_START :: string where
  "DRUPAL_DOCS_START = DRUPAL_BASE_URL"

definition crawl_init :: "globals \<Rightarrow> string list option \<Rightarrow> crawl_state" where
  "crawl_init g start_urls =
     (let seeds = (case start_urls of None \<Rightarrow> DRUPAL_DOCS_START # MAIN_DOC_URLS | Some us \<Rightarrow> us)
      in \<lparr>to_visit = map (\<lambda>u. (u, 0, ''main'')) seeds, visited = {}, all_pages = [],
          product_page_counts = [], glob = g\<rparr>)"

text \<open>
  The links of a fetched page that go to the frontier: those neither visited nor
  queued, split by product area, at most 25 of the page's own area and 8 of the others.
\<close>

definition new_items ::
  "externals \<Rightarrow> crawl_state \<Rightarrow> int \<Rightarrow> string \<Rightarrow> page_data \<Rightarrow> (string \<times> int \<times> string) list" where
  "new_items ext st depth product_area page_data =
     (let fresh = filter (\<lambda>link. link \<notin> visited st \<and> link \<notin> set (map fst (to_visit st)))
                    (links page_data);
          same_product_links = filter (\<lambda>link. get_product_area ext link = product_area) fresh;
          other_links = filter (\<lambda>link. get_product_area ext link \<noteq> product_area) fresh
      in map (\<lambda>link. (link, depth + 1, product_area)) (take 25 same_product_links) @
         map (\<lambda>link. (link, depth + 1, get_product_area ext link)) (take 8 other_links))"

text \<open>
  The part of the loop body after the budget check: mark visited, count, fetch, and on
  success record the page and extend the frontier. \<open>st\<close> is the state with the item
  already popped. Logging and the delay between requests change no state and are left
  out.
\<close>

definition crawl_visit ::
  "externals \<Rightarrow> int \<Rightarrow> crawl_state \<Rightarrow> string \<Rightarrow> int \<Rightarrow> string \<Rightarrow> int \<Rightarrow> crawl_state" where
  "crawl_visit ext max_depth st u depth product_area n =
     (let st1 = st\<lparr>visited := insert u (visited st),
                   product_page_counts := dict_set (product_page_counts st) product_area (n + 1)\<rparr>;
          fetched = fetch_page ext (glob st1) u;
          page_data = fst fetched;
          st2 = st1\<lparr>glob := snd fetched\<rparr>
      in if success page_data then
           (let st3 = st2\<lparr>all_pages := dict_set (all_pages st2) u page_data\<rparr> in
            if depth < max_depth then
              st3\<lparr>to_visit := to_visit st3 @ new_items ext st3 depth product_area page_data\<rparr>
            else st3)
         else st2)"

text \<open>
  One iteration of \<^verbatim>\<open>while to_visit\<close>: pop the head, skip it when visited or too deep,
  give its product area a counter, skip it when the area's budget is used up, and visit
  it otherwise. \<open>n\<close> is the counter's value once it exists.
\<close>

definition crawl_step :: "externals \<Rightarrow> int \<Rightarrow> crawl_state \<Rightarrow> crawl_state" where
  "crawl_step ext max_depth st =
     (case to_visit st of
        [] \<Rightarrow> st
      | item # rest \<Rightarrow>
          (let u = fst item; depth = fst (snd item); st0 = st\<lparr>to_visit := rest\<rparr> in
           if u \<in> visited st \<or> max_depth < depth then st0
           else
             let product_area = get_product_area ext u;
                 st1 = (if product_area \<in> set (map fst (product_page_counts st0)) then st0
                        else st0\<lparr>product_page_counts :=
                                   dict_set (product_page_counts st0) product_area 0\<rparr>);
                 n = (case map_of (product_page_counts st0) product_area of
                        Some k \<Rightarrow> k | None \<Rightarrow> 0)
             in if MAX_PAGES_PER_PRODUCT \<le> n then st1
                else crawl_visit ext max_depth st1 u depth product_area n))"

text \<open>
  The budget still open over all product areas, and the measure that every iteration
  on a non-empty frontier lowers: a visit uses one unit of budget and adds at most 33
  items, a skip removes one item.
\<close>

definition count_of :: "(string \<times> int) list \<Rightarrow> string \<Rightarrow> int" where
  "count_of counts a = (case map_of counts a of Some k \<Rightarrow> k | None \<Rightarrow> 0)"

definition budget_left :: "(string \<times> int) list \<Rightarrow> nat" where
  "budget_left counts =
     sum_list (map (\<lambda>a. nat (MAX_PAGES_PER_PRODUCT - count_of counts a)) product_areas)"

definition crawl_measure :: "crawl_state \<Rightarrow> nat" where
  "crawl_measure st = 34 * budget_left (product_page_counts st) + length (to_visit st)"

section \<open>Search orchestrator\<close>














section \<open>Vocabulary of the properties\<close>






text \<open>
  The iteration that starts in \<open>st\<close> fetches \<open>u\<close>: \<open>u\<close> heads the frontier and passes the
  three checks before \<^verbatim>\<open>fetch_page(url)\<close>.
\<close>

definition attempts :: "externals \<Rightarrow> int \<Rightarrow> crawl_state \<Rightarrow> string \<Rightarrow> bool" where
  "attempts ext max_depth st u =
     (case to_visit st of
        [] \<Rightarrow> False
      | item # rest \<Rightarrow>
          fst item = u \<and> u \<notin> visited st \<and> \<not> max_depth < fst (snd item)
          \<and> count_of (product_page_counts st) (get_product_area ext u) < MAX_PAGES_PER_PRODUCT)"

text \<open>No counter of the crawl is above the budget.\<close>

definition within_budget :: "crawl_state \<Rightarrow> bool" where
  "within_budget st = (\<forall>e\<in>set (product_page_counts st). snd e \<le> MAX_PAGES_PER_PRODUCT)"

text \<open>
  What \<^verbatim>\<open>fetch_page\<close> keeps true of the cache: every cached page has a duplicate-free
  link list (\<^verbatim>\<open>list(set(links))\<close>, or the empty list of a preloaded document). And the
  deduplication of the frontier: every frontier item that satisfies \<open>P\<close> has a URL that
  is not visited and that sits in the frontier exactly once.
\<close>

definition cache_links_distinct :: "globals \<Rightarrow> bool" where
  "cache_links_distinct g = (\<forall>e\<in>set (page_cache g). distinct (links (snd e)))"

definition frontier_inv :: "(string \<times> int \<times> string \<Rightarrow> bool) \<Rightarrow> crawl_state \<Rightarrow> bool" where
  "frontier_inv P st =
     (\<forall>item\<in>set (to_visit st). P item \<longrightarrow>
        fst item \<notin> visited st \<and> count_list (map fst (to_visit st)) (fst item) = 1)"




section \<open>Stand-ins for worked examples\<close>

text \<open>
  A model of \<^verbatim>\<open>urllib.parse.urlparse\<close> for URLs without whitespace, control characters
  and bracketed hosts: the scheme up to the first colon, the host after \<^verbatim>\<open>//\<close>, the
  fragment and the query cut off, and the parameters of the last path segment cut off
  for the schemes that have them. The examples run the program on it, on a network
  that is down (\<open>offline\<close>) and on one that serves the same small page everywhere
  (\<open>same_page_everywhere\<close>). Their \<open>quote\<close> is the identity, which is what
  \<^verbatim>\<open>requests.utils.quote\<close> is on letters, digits and \<^verbatim>\<open>_.-~/\<close>.
\<close>

definition is_alpha :: "char \<Rightarrow> bool" where
  "is_alpha c = (c \<in> set ''abcdefghijklmnopqrstuvwxyzABCDEFGHIJKLMNOPQRSTUVWXYZ'')"

definition scheme_chars :: string where
  "scheme_chars = ''abcdefghijklmnopqrstuvwxyzABCDEFGHIJKLMNOPQRSTUVWXYZ0123456789+-.''"

definition uses_params :: "string list" where
  "uses_params =
     [[], ''ftp'', ''hdl'', ''prospero'', ''http'', ''imap'', ''https'', ''shttp'', ''rtsp'',
      ''rtspu'', ''sip'', ''sips'', ''mms'', ''sftp'', ''tel'']"

definition py_urlparse :: "string \<Rightarrow> parsed_url" where
  "py_urlparse u =
     (let front = takeWhile (\<lambda>c. c \<noteq> CHR '':'') u;
          has_scheme = (front \<noteq> [] \<and> length front < length u \<and> list_ex is_alpha (take 1 front)
                        \<and> list_all (\<lambda>c. c \<in> set scheme_chars) front);
          scheme = (if has_scheme then lower front else []);
          rest = (if has_scheme then drop (length front + 1) u else u);
          has_netloc = (take 2 rest = ''//'');
          host = (if has_netloc then takeWhile (\<lambda>c. c \<notin> set ''/?#'') (drop 2 rest) else []);
          rest1 = (if has_netloc then dropWhile (\<lambda>c. c \<notin> set ''/?#'') (drop 2 rest) else rest);
          rest2 = takeWhile (\<lambda>c. c \<noteq> CHR ''#'') rest1;
          rest3 = takeWhile (\<lambda>c. c \<noteq> CHR ''?'') rest2;
          last_segment = rev (takeWhile (\<lambda>c. c \<noteq> CHR ''/'') (rev rest3));
          before = take (length rest3 - length last_segment) rest3
      in \<lparr>netloc = host,
          path = (if scheme \<in> set uses_params
                  then before @ takeWhile (\<lambda>c. c \<noteq> CHR '';'') last_segment else rest3)\<rparr>)"

text \<open>An empty module state, small pages and URLs of the site.\<close>

definition empty_globals :: globals where
  "empty_globals =
     \<lparr>page_cache = [], url_to_cache_key = [], discovered_urls = {}, requests_sent = 0\<rparr>"

definition blank_page :: "string \<Rightarrow> page_data" where
  "blank_page u = \<lparr>url = u, title = ''T'', content = ''c'', links = [], success = True\<rparr>"

definition dam_overview :: string where
  "dam_overview = ''https://docs.acquia.com/acquia-dam/overview''"


definition site_factory_overview :: string where
  "site_factory_overview = ''https://docs.acquia.com/site-factory/overview''"


definition offline :: externals where
  "offline =
     \<lparr>urlparse = py_urlparse, quote = (\<lambda>s. s), md5_hexdigest = (\<lambda>s. ''0123456789abcdef''),
      http_get = (\<lambda>n u. RequestException ''offline''), search_page = (\<lambda>n q. None)\<rparr>"


definition three_puts :: "(string \<times> page_data) list" where
  "three_puts = [(''A'', blank_page ''A''), (''B'', blank_page ''B''), (''C'', blank_page ''C'')]"

definition cache_AB :: globals where
  "cache_AB =
     empty_globals\<lparr>page_cache := [(''A'', blank_page ''A''), (''B'', blank_page ''B'')]\<rparr>"

definition one_seed :: crawl_state where
  "one_seed = crawl_init empty_globals (Some [dam_overview])"


text \<open>A network on which every page links to the same two pages, one of them twice.\<close>

definition linking :: externals where
  "linking =
     offline\<lparr>http_get :=
       (\<lambda>n u. Html ''T'' ''c'' [dam_overview, site_factory_overview, dam_overview])\<rparr>"


section \<open>Facts about dictionaries\<close>

lemma dict_set_fresh: "k \<notin> set (map fst d) \<Longrightarrow> dict_set d k v = d @ [(k, v)]"
  by (induction d) auto

lemma dict_set_keys_present: "k \<in> set (map fst d) \<Longrightarrow> map fst (dict_set d k v) = map fst d"
  by (induction d) auto

lemma dict_set_keys: "set (map fst (dict_set d k v)) = insert k (set (map fst d))"
  by (induction d) auto

lemma dict_set_distinct: "distinct (map fst d) \<Longrightarrow> distinct (map fst (dict_set d k v))"
proof (induction d)
  case Nil
  show ?case by simp
next
  case (Cons e d)
  have "fst e \<noteq> k \<Longrightarrow> fst e \<notin> set (map fst (dict_set d k v))"
    using Cons.prems by (simp add: dict_set_keys del: set_map)
  with Cons show ?case by auto
qed

lemma map_of_dict_set: "map_of (dict_set d k v) = (map_of d)(k \<mapsto> v)"
  by (induction d) (auto simp: fun_eq_iff)

lemma dict_del_fresh: "k \<notin> set (map fst d) \<Longrightarrow> dict_del d k = d"
  by (induction d) (auto simp: dict_del_def)

lemma dict_del_hd: "distinct (map fst (e # d)) \<Longrightarrow> dict_del (e # d) (fst e) = d"
  using dict_del_fresh [of "fst e" d] by (simp add: dict_del_def)

lemma distinct_keys_drop:
  assumes "distinct (map fst (xs @ ps))"
  shows "distinct (map fst (drop n xs @ ps))"
proof -
  have "set (drop n (map fst xs)) \<subseteq> set (map fst xs)" by (rule set_drop_subset)
  moreover have "distinct (drop n (map fst xs))" using assms by simp
  ultimately show ?thesis using assms by (auto simp: drop_map)
qed

section \<open>The cache is first-in first-out\<close>

lemma add_to_cache_fresh:
  assumes "1 \<le> C" and "distinct (map fst (page_cache g))" and "u \<notin> set (map fst (page_cache g))"
    and "int (length (page_cache g)) \<le> C"
  shows "\<exists>g'. add_to_cache ext C g u pd = Inr g' \<and>
           page_cache g' =
             drop (Suc (length (page_cache g)) - nat C) (page_cache g @ [(u, pd)])"
proof (cases "C \<le> int (length (page_cache g))")
  case True
  with assms obtain e d where c: "page_cache g = e # d"
    by (cases "page_cache g") auto
  from True assms(4) have len: "nat C = length (page_cache g)" by simp
  have "dict_del (page_cache g) (fst e) = d"
    using assms(2) dict_del_hd [of e d] by (simp add: c)
  moreover have "u \<notin> set (map fst d)" using assms(3) by (simp add: c)
  ultimately show ?thesis
    using True len by (simp add: add_to_cache_def cache_store_def c dict_set_fresh)
next
  case False
  then have "Suc (length (page_cache g)) - nat C = 0" by simp
  with False assms(3) show ?thesis
    by (simp add: add_to_cache_def cache_store_def dict_set_fresh)
qed

lemma add_all_fifo:
  assumes "1 \<le> C"
  shows "distinct (map fst (page_cache g @ puts)) \<Longrightarrow> int (length (page_cache g)) \<le> C \<Longrightarrow>
         \<exists>g'. add_all ext C g puts = Inr g' \<and>
           page_cache g' = drop (length (page_cache g @ puts) - nat C) (page_cache g @ puts)"
proof (induction puts arbitrary: g)
  case Nil
  then show ?case by simp
next
  case (Cons p ps)
  have d: "distinct (map fst (page_cache g))" and f: "fst p \<notin> set (map fst (page_cache g))"
    using Cons.prems(1) by auto
  from add_to_cache_fresh [OF assms d f Cons.prems(2), of ext "snd p"]
  obtain g1 where g1: "add_to_cache ext C g (fst p) (snd p) = Inr g1"
    and c1: "page_cache g1 = drop (Suc (length (page_cache g)) - nat C) (page_cache g @ [p])"
    by auto
  have len1: "int (length (page_cache g1)) \<le> C"
    using Cons.prems(2) assms by (simp add: c1)
  have "distinct (map fst ((page_cache g @ [p]) @ ps))"
    using Cons.prems(1) by simp
  then have dist1: "distinct (map fst (page_cache g1 @ ps))"
    unfolding c1 by (rule distinct_keys_drop)
  from Cons.IH [OF dist1 len1]
  obtain g' where g': "add_all ext C g1 ps = Inr g'"
    and c': "page_cache g' = drop (length (page_cache g1 @ ps) - nat C) (page_cache g1 @ ps)"
    by auto
  have "drop (length (page_cache g1 @ ps) - nat C) (page_cache g1 @ ps) =
        drop (length (page_cache g @ p # ps) - nat C) (page_cache g @ p # ps)"
  proof (cases "Suc (length (page_cache g)) \<le> nat C")
    case True
    then show ?thesis by (simp add: c1)
  next
    case False
    with Cons.prems(2) have eq: "length (page_cache g) = nat C" by simp
    with assms obtain e d where c: "page_cache g = e # d"
      by (cases "page_cache g") auto
    have "nat C = Suc (length d)" using eq c by simp
    then show ?thesis by (simp add: c1 c)
  qed
  with g1 g' c' show ?case by simp
qed

lemma add_to_cache_evicts:
  assumes "1 \<le> C" and "C \<le> int (length (page_cache g))" and "distinct (map fst (page_cache g))"
    and "u \<notin> set (map fst (page_cache g))"
  shows "\<exists>g'. add_to_cache ext C g u pd = Inr g' \<and> page_cache g' = tl (page_cache g) @ [(u, pd)]"
proof -
  from assms(1,2) obtain e d where c: "page_cache g = e # d"
    by (cases "page_cache g") auto
  have "dict_del (page_cache g) (fst e) = d"
    using assms(3) dict_del_hd [of e d] by (simp add: c)
  moreover have "u \<notin> set (map fst d)" using assms(4) by (simp add: c)
  ultimately show ?thesis
    using assms(2) by (simp add: add_to_cache_def cache_store_def c dict_set_fresh)
qed

lemma add_all_from_empty:
  assumes "1 \<le> C" and "distinct (map fst puts)" and "page_cache g0 = []"
  shows "\<exists>g'. add_all ext C g0 puts = Inr g' \<and> page_cache g' = drop (length puts - nat C) puts
           \<and> int (length (page_cache g')) \<le> C"
proof -
  have "distinct (map fst (page_cache g0 @ puts))" and "int (length (page_cache g0)) \<le> C"
    using assms by simp_all
  from add_all_fifo [OF assms(1) this, of ext]
  obtain g' where g': "add_all ext C g0 puts = Inr g'"
    and c: "page_cache g' = drop (length puts - nat C) puts"
    by (auto simp: assms(3))
  have "int (length (page_cache g')) \<le> C" using assms(1) by (simp add: c)
  with g' c show ?thesis by blast
qed

text \<open>
  C2, as the code has it. For every capacity \<open>C \<ge> 1\<close> and every sequence of puts with
  pairwise distinct URLs into an empty cache: the cache afterwards holds the last \<open>C\<close>
  puts in insertion order (exactly \<open>C\<close> of them when there were more than \<open>C\<close>); the same
  holds after every prefix of the sequence, so the size never exceeds \<open>C\<close>; and a put of
  a new URL into a cache at capacity removes the oldest entry and nothing else.
\<close>

theorem add_to_cache_fifo:
  assumes "1 \<le> C" and "distinct (map fst puts)" and "page_cache g0 = []"
  shows "(\<exists>g'. add_all ext C g0 puts = Inr g' \<and> page_cache g' = drop (length puts - nat C) puts
            \<and> (C < int (length puts) \<longrightarrow> int (length (page_cache g')) = C))
       \<and> (\<forall>k. \<exists>g. add_all ext C g0 (take k puts) = Inr g
            \<and> page_cache g = drop (length (take k puts) - nat C) (take k puts)
            \<and> int (length (page_cache g)) \<le> C)
       \<and> (\<forall>g u pd. C \<le> int (length (page_cache g)) \<and> distinct (map fst (page_cache g))
              \<and> u \<notin> set (map fst (page_cache g))
            \<longrightarrow> (\<exists>g'. add_to_cache ext C g u pd = Inr g'
                   \<and> page_cache g' = tl (page_cache g) @ [(u, pd)]))"
proof (intro conjI allI impI)
  from add_all_from_empty [OF assms, of ext]
  obtain g' where g': "add_all ext C g0 puts = Inr g'"
    and c: "page_cache g' = drop (length puts - nat C) puts" by blast
  have "C < int (length puts) \<longrightarrow> int (length (page_cache g')) = C"
    using assms(1) by (auto simp: c)
  with g' c
  show "\<exists>g'. add_all ext C g0 puts = Inr g' \<and> page_cache g' = drop (length puts - nat C) puts
          \<and> (C < int (length puts) \<longrightarrow> int (length (page_cache g')) = C)"
    by blast
next
  fix k
  have "distinct (map fst (take k puts))"
    using assms(2) by (simp add: take_map [symmetric])
  from add_all_from_empty [OF assms(1) this assms(3), of ext]
  show "\<exists>g. add_all ext C g0 (take k puts) = Inr g
          \<and> page_cache g = drop (length (take k puts) - nat C) (take k puts)
          \<and> int (length (page_cache g)) \<le> C" .
next
  fix g :: globals and u pd
  assume "C \<le> int (length (page_cache g)) \<and> distinct (map fst (page_cache g))
            \<and> u \<notin> set (map fst (page_cache g))"
  then show "\<exists>g'. add_to_cache ext C g u pd = Inr g' \<and> page_cache g' = tl (page_cache g) @ [(u, pd)]"
    using add_to_cache_evicts [OF assms(1), of g u ext pd] by blast
qed

theorem add_to_cache_fifo_witness:
  "(1::int) \<le> 2 \<and> distinct (map fst three_puts) \<and> page_cache empty_globals = []
   \<and> (\<exists>g'. add_all offline 2 empty_globals three_puts = Inr g'
         \<and> map fst (page_cache g') = [''B'', ''C''])"
proof -
  have h: "(1::int) \<le> 2" "distinct (map fst three_puts)" "page_cache empty_globals = []"
    by (simp_all add: three_puts_def empty_globals_def)
  from add_to_cache_fifo [OF h, of offline]
  obtain g' where "add_all offline 2 empty_globals three_puts = Inr g'"
    and "page_cache g' = drop (length three_puts - nat 2) three_puts" by blast
  then have "\<exists>g'. add_all offline 2 empty_globals three_puts = Inr g'
      \<and> map fst (page_cache g') = [''B'', ''C'']"
    by (simp add: three_puts_def)
  with h show ?thesis by simp
qed

text \<open>
  With capacity 0 the first put finds the cache "full" and asks an empty dictionary
  for its oldest key.
\<close>

theorem add_to_cache_capacity_zero:
  "add_all offline 0 empty_globals [(''A'', blank_page ''A'')] = Inl StopIteration"
  by (simp add: add_to_cache_def empty_globals_def)

text \<open>
  C9, as the code has it. A put of a URL that is already cached, into a cache holding at
  least \<open>C\<close> entries, first evicts the oldest entry. When the URL is not that oldest
  entry it keeps its page slot among the survivors, the cache is one entry smaller
  (\<open>C - 1\<close> from \<open>C\<close>), and its place in the eviction order does not move back. When the
  URL is the oldest entry itself, it is evicted and stored again as the newest.
  Below capacity the put replaces the page in place.
\<close>

theorem add_to_cache_existing_url:
  assumes "distinct (map fst (page_cache g))" and "u \<in> set (map fst (page_cache g))"
  shows "\<exists>g'. add_to_cache ext C g u pd = Inr g' \<and>
           map fst (page_cache g') =
             (if int (length (page_cache g)) < C then map fst (page_cache g)
              else if u = hd (map fst (page_cache g)) then tl (map fst (page_cache g)) @ [u]
              else tl (map fst (page_cache g)))
           \<and> (C \<le> int (length (page_cache g)) \<and> u \<noteq> hd (map fst (page_cache g)) \<longrightarrow>
                length (page_cache g') = length (page_cache g) - 1)
           \<and> (int (length (page_cache g)) < C \<or> u \<noteq> hd (map fst (page_cache g)) \<longrightarrow>
                index_of u (map fst (page_cache g')) \<le> index_of u (map fst (page_cache g)))"
proof (cases "int (length (page_cache g)) < C")
  case True
  then show ?thesis
    using assms(2) by (simp add: add_to_cache_def cache_store_def dict_set_keys_present)
next
  case False
  from assms(2) obtain e d where c: "page_cache g = e # d"
    by (cases "page_cache g") auto
  have del: "dict_del (page_cache g) (fst e) = d"
    using assms(1) dict_del_hd [of e d] by (simp add: c)
  show ?thesis
  proof (cases "u = fst e")
    case True
    then have "u \<notin> set (map fst d)" using assms(1) by (simp add: c)
    then show ?thesis
      using False True del by (simp add: add_to_cache_def cache_store_def c dict_set_fresh)
  next
    case ne: False
    then have "u \<in> set (map fst d)" using assms(2) by (auto simp: c)
    then have keys: "map fst (dict_set d u pd) = map fst d"
      by (rule dict_set_keys_present)
    then have "length (dict_set d u pd) = length d"
      by (metis length_map)
    then show ?thesis
      using False ne del keys
      by (simp add: add_to_cache_def cache_store_def c index_of_def)
  qed
qed

theorem add_to_cache_existing_url_witness:
  "distinct (map fst (page_cache cache_AB)) \<and> ''B'' \<in> set (map fst (page_cache cache_AB))
   \<and> (\<exists>g'. add_to_cache offline 2 cache_AB ''B'' (blank_page ''B'') = Inr g'
         \<and> map fst (page_cache g') = [''B''])"
proof -
  have h: "distinct (map fst (page_cache cache_AB))" "''B'' \<in> set (map fst (page_cache cache_AB))"
    by (simp_all add: cache_AB_def empty_globals_def)
  from add_to_cache_existing_url [OF h, of offline 2 "blank_page ''B''"]
  obtain g' where "add_to_cache offline 2 cache_AB ''B'' (blank_page ''B'') = Inr g'"
    and "map fst (page_cache g') =
           (if int (length (page_cache cache_AB)) < 2 then map fst (page_cache cache_AB)
            else if ''B'' = hd (map fst (page_cache cache_AB))
                 then tl (map fst (page_cache cache_AB)) @ [''B'']
            else tl (map fst (page_cache cache_AB)))"
    by blast
  then have "\<exists>g'. add_to_cache offline 2 cache_AB ''B'' (blank_page ''B'') = Inr g'
      \<and> map fst (page_cache g') = [''B'']"
    by (simp add: cache_AB_def empty_globals_def)
  with h show ?thesis by simp
qed

text \<open>
  Capacity 2, cache \<open>[A, B]\<close>, put \<open>A\<close> again: \<open>A\<close> was first to go and is now last.
\<close>

theorem add_to_cache_oldest_moves_back:
  "index_of ''A'' (map fst (page_cache cache_AB)) = 0
   \<and> map_sum id (\<lambda>g. map fst (page_cache g))
        (add_to_cache offline 2 cache_AB ''A'' (blank_page ''A'')) = Inr [''B'', ''A'']
   \<and> index_of ''A'' [''B'', ''A''] = 1"
  by (simp add: add_to_cache_def cache_store_def cache_AB_def empty_globals_def dict_del_def
      index_of_def)

section \<open>Evaluating the program on concrete inputs\<close>

lemmas string_eval =
  lower_def char_lower_def endswith_def startswith_def split_ws_def is_space_def Let_def

lemmas classifier_eval =
  is_docs_url_def get_product_area_def excluded_patterns_def excluded_extensions_def
  problem_patterns_def DRUPAL_BASE_URL_def


lemmas urlparse_eval =
  py_urlparse_def is_alpha_def scheme_chars_def uses_params_def

lemma urlparse_base:
  "py_urlparse ''https://docs.acquia.com/'' = \<lparr>netloc = ''docs.acquia.com'', path = ''/''\<rparr>"
  by (simp add: urlparse_eval string_eval)

lemma urlparse_dam_overview:
  "py_urlparse ''https://docs.acquia.com/acquia-dam/overview'' =
     \<lparr>netloc = ''docs.acquia.com'', path = ''/acquia-dam/overview''\<rparr>"
  by (simp add: urlparse_eval string_eval)

section \<open>The URL classifier is a deny-list behind a guard on the path\<close>




section \<open>The relevance score\<close>











section \<open>The crawler's budget and frontier\<close>

lemma get_product_area_in: "get_product_area ext u \<in> set product_areas"
  by (simp add: get_product_area_def product_areas_def Let_def)

lemma count_of_dict_set: "count_of (dict_set d k v) a = (if a = k then v else count_of d a)"
  by (simp add: count_of_def map_of_dict_set)

lemma count_of_new_counter:
  "k \<notin> set (map fst d) \<Longrightarrow> count_of (dict_set d k 0) a = count_of d a"
proof -
  assume "k \<notin> set (map fst d)"
  then have "map_of d k = None"
    by (simp add: map_of_eq_None_iff)
  then show ?thesis
    by (simp add: count_of_dict_set) (simp add: count_of_def)
qed

lemma sum_list_lower_one:
  fixes f f' :: "'a \<Rightarrow> nat"
  assumes "distinct xs" and "k \<in> set xs" and "f' k + 1 = f k" and "\<And>a. a \<noteq> k \<Longrightarrow> f' a = f a"
  shows "sum_list (map f' xs) + 1 = sum_list (map f xs)"
  using assms(1,2)
proof (induction xs)
  case Nil
  then show ?case by simp
next
  case (Cons x xs)
  show ?case
  proof (cases "x = k")
    case True
    then have "k \<notin> set xs" using Cons.prems by simp
    then have "map f' xs = map f xs"
      using assms(4) by (intro map_cong) (auto, metis)
    then have "sum_list (map f' xs) = sum_list (map f xs)"
      by (rule arg_cong)
    with True assms(3) show ?thesis by simp
  next
    case False
    with Cons assms(4) [of x] show ?thesis by simp
  qed
qed

lemma budget_left_cong:
  assumes "\<And>a. count_of d' a = count_of d a"
  shows "budget_left d' = budget_left d"
  by (simp add: budget_left_def assms)

lemma budget_left_visit:
  assumes "a \<in> set product_areas" and "count_of d a < MAX_PAGES_PER_PRODUCT"
  shows "budget_left (dict_set d a (count_of d a + 1)) + 1 = budget_left d"
  unfolding budget_left_def
proof (rule sum_list_lower_one [where k = a])
  show "distinct product_areas" by (simp add: product_areas_def)
  show "a \<in> set product_areas" by (rule assms(1))
  show "nat (MAX_PAGES_PER_PRODUCT - count_of (dict_set d a (count_of d a + 1)) a) + 1
      = nat (MAX_PAGES_PER_PRODUCT - count_of d a)"
    using assms(2) by (simp add: count_of_dict_set)
  show "\<And>b. b \<noteq> a \<Longrightarrow>
      nat (MAX_PAGES_PER_PRODUCT - count_of (dict_set d a (count_of d a + 1)) b)
      = nat (MAX_PAGES_PER_PRODUCT - count_of d b)"
    by (simp add: count_of_dict_set)
qed

lemma length_new_items: "length (new_items ext st depth area pd) \<le> 33"
  by (simp add: new_items_def Let_def)

lemma crawl_visit_fields:
  "visited (crawl_visit ext md st u depth area n) = insert u (visited st)"
  "product_page_counts (crawl_visit ext md st u depth area n)
     = dict_set (product_page_counts st) area (n + 1)"
  "glob (crawl_visit ext md st u depth area n) = snd (fetch_page ext (glob st) u)"
  by (simp_all add: crawl_visit_def Let_def)

lemma crawl_visit_failed:
  assumes "\<not> success (fst (fetch_page ext (glob st) u))"
  shows "all_pages (crawl_visit ext md st u depth area n) = all_pages st"
    and "to_visit (crawl_visit ext md st u depth area n) = to_visit st"
  using assms by (simp_all add: crawl_visit_def Let_def)

lemma crawl_visit_to_visit:
  "to_visit (crawl_visit ext md st u depth area n) =
     (if success (fst (fetch_page ext (glob st) u)) \<and> depth < md
      then to_visit st @
           new_items ext (st\<lparr>visited := insert u (visited st)\<rparr>) depth area
             (fst (fetch_page ext (glob st) u))
      else to_visit st)"
  by (simp add: crawl_visit_def Let_def new_items_def)

lemma crawl_visit_length:
  "length (to_visit (crawl_visit ext md st u depth area n)) \<le> length (to_visit st) + 33"
  using length_new_items [of ext "st\<lparr>visited := insert u (visited st)\<rparr>" depth area
      "fst (fetch_page ext (glob st) u)"]
  by (simp add: crawl_visit_to_visit)

text \<open>The counters with the one for \<open>area\<close> created when it is not there yet.\<close>

lemma set_dict_set: "set (dict_set d k v) \<subseteq> insert (k, v) (set d)"
  by (induction d) auto

lemma crawl_step_cases [consumes 1, case_names skip full visit]:
  assumes "to_visit st = item # rest"
  obtains
    "fst item \<in> visited st \<or> md < fst (snd item)"
    "crawl_step ext md st = st\<lparr>to_visit := rest\<rparr>"
  | "fst item \<notin> visited st" "\<not> md < fst (snd item)"
    "MAX_PAGES_PER_PRODUCT \<le> count_of (product_page_counts st) (get_product_area ext (fst item))"
    "crawl_step ext md st = st\<lparr>to_visit := rest\<rparr>"
  | counts1 where "fst item \<notin> visited st" "\<not> md < fst (snd item)"
    "count_of (product_page_counts st) (get_product_area ext (fst item)) < MAX_PAGES_PER_PRODUCT"
    "\<And>a. count_of counts1 a = count_of (product_page_counts st) a"
    "crawl_step ext md st =
       crawl_visit ext md (st\<lparr>to_visit := rest, product_page_counts := counts1\<rparr>) (fst item)
         (fst (snd item)) (get_product_area ext (fst item))
         (count_of (product_page_counts st) (get_product_area ext (fst item)))"
    "set counts1 \<subseteq> insert (get_product_area ext (fst item), 0) (set (product_page_counts st))"
proof -
  let ?u = "fst item" and ?a = "get_product_area ext (fst item)"
  let ?n = "count_of (product_page_counts st) ?a"
  consider "?u \<in> visited st \<or> md < fst (snd item)"
    | "?u \<notin> visited st" "\<not> md < fst (snd item)" "MAX_PAGES_PER_PRODUCT \<le> ?n"
    | "?u \<notin> visited st" "\<not> md < fst (snd item)" "?n < MAX_PAGES_PER_PRODUCT"
    by linarith
  then show thesis
  proof cases
    case 1
    then have "crawl_step ext md st = st\<lparr>to_visit := rest\<rparr>"
      using assms by (auto simp: crawl_step_def Let_def)
    with 1 that(1) show ?thesis by blast
  next
    case 2
    then have "?n \<noteq> 0" by (simp add: MAX_PAGES_PER_PRODUCT_def)
    then have "map_of (product_page_counts st) ?a \<noteq> None"
      by (auto simp: count_of_def split: option.splits)
    then have "?a \<in> set (map fst (product_page_counts st))"
      by (simp add: map_of_eq_None_iff)
    then have "crawl_step ext md st = st\<lparr>to_visit := rest\<rparr>"
      using assms 2 by (simp add: crawl_step_def Let_def count_of_def)
    with 2 that(2) show ?thesis by blast
  next
    case 3
    let ?c = "if ?a \<in> set (map fst (product_page_counts st)) then product_page_counts st
              else dict_set (product_page_counts st) ?a 0"
    have "\<And>b. count_of ?c b = count_of (product_page_counts st) b"
      by (simp add: count_of_new_counter)
    moreover have "set ?c \<subseteq> insert (?a, 0) (set (product_page_counts st))"
      using set_dict_set [of "product_page_counts st" ?a 0] by auto
    moreover have "crawl_step ext md st =
       crawl_visit ext md (st\<lparr>to_visit := rest, product_page_counts := ?c\<rparr>) ?u
         (fst (snd item)) ?a ?n"
      using assms 3 by (simp add: crawl_step_def Let_def count_of_def)
    ultimately show ?thesis using 3 that(3) [of ?c] by blast
  qed
qed

lemma crawl_step_measure:
  assumes "to_visit st \<noteq> []"
  shows "crawl_measure (crawl_step ext md st) < crawl_measure st"
proof -
  from assms obtain item rest where tv: "to_visit st = item # rest"
    by (cases "to_visit st") auto
  then show ?thesis
  proof (cases rule: crawl_step_cases [where ext = ext and md = md])
    case skip
    then show ?thesis by (simp add: crawl_measure_def tv)
  next
    case full
    then show ?thesis by (simp add: crawl_measure_def tv)
  next
    case (visit counts1)
    let ?a = "get_product_area ext (fst item)"
    let ?st1 = "st\<lparr>to_visit := rest, product_page_counts := counts1\<rparr>"
    have n: "count_of (product_page_counts st) ?a = count_of counts1 ?a"
      by (simp add: visit(4))
    have "budget_left (dict_set counts1 ?a (count_of counts1 ?a + 1)) + 1 = budget_left counts1"
      using visit(3) by (intro budget_left_visit get_product_area_in) (simp add: visit(4))
    moreover have "budget_left counts1 = budget_left (product_page_counts st)"
      by (rule budget_left_cong) (rule visit(4))
    moreover have "length (to_visit (crawl_step ext md st)) \<le> length rest + 33"
      using crawl_visit_length [of ext md ?st1] by (simp add: visit(5))
    moreover have "product_page_counts (crawl_step ext md st)
        = dict_set counts1 ?a (count_of counts1 ?a + 1)"
      by (simp add: visit(5) crawl_visit_fields n)
    ultimately show ?thesis
      by (simp add: crawl_measure_def tv)
  qed
qed

text \<open>
  \<^verbatim>\<open>while to_visit:\<close> runs the iteration until the frontier is empty; every iteration
  lowers \<open>crawl_measure\<close>, so the loop is a total function. \<^verbatim>\<open>crawl_docs\<close> returns
  \<open>all_pages\<close>; the module state it leaves behind is returned with it.
\<close>

function crawl_loop :: "externals \<Rightarrow> int \<Rightarrow> crawl_state \<Rightarrow> crawl_state" where
  "crawl_loop ext max_depth st =
     (if to_visit st = [] then st else crawl_loop ext max_depth (crawl_step ext max_depth st))"
  by pat_completeness auto
termination
  by (relation "measure (\<lambda>(ext, max_depth, st). crawl_measure st)")
    (auto simp: crawl_step_measure)

declare crawl_loop.simps [simp del]

definition crawl_docs ::
  "externals \<Rightarrow> globals \<Rightarrow> string list option \<Rightarrow> int \<Rightarrow> (string \<times> page_data) list \<times> globals" where
  "crawl_docs ext g start_urls max_depth =
     (let st = crawl_loop ext max_depth (crawl_init g start_urls) in (all_pages st, glob st))"

lemma area_dam_overview: "get_product_area offline dam_overview = ''acquia-dam''"
  by (simp add: get_product_area_def offline_def dam_overview_def urlparse_dam_overview
      string_eval)

lemma fetch_offline:
  "fetch_page offline empty_globals u =
     (network_error_page u ''offline'', empty_globals\<lparr>requests_sent := 1\<rparr>)"
  by (simp add: fetch_page_def offline_def empty_globals_def)

lemma one_seed_step:
  "crawl_step offline md one_seed =
     (if md < 0 then one_seed\<lparr>to_visit := []\<rparr>
      else \<lparr>to_visit = [], visited = {dam_overview}, all_pages = [],
            product_page_counts = [(''acquia-dam'', 1)],
            glob = empty_globals\<lparr>requests_sent := 1\<rparr>\<rparr>)"
  by (simp add: crawl_step_def one_seed_def crawl_init_def area_dam_overview crawl_visit_def
      fetch_offline network_error_page_def MAX_PAGES_PER_PRODUCT_def Let_def)

lemma crawl_loop_iterates:
  "\<exists>n\<le>crawl_measure st. to_visit ((crawl_step ext md ^^ n) st) = []
     \<and> crawl_loop ext md st = (crawl_step ext md ^^ n) st"
proof (induction ext md st rule: crawl_loop.induct)
  case (1 ext md st)
  show ?case
  proof (cases "to_visit st = []")
    case True
    then have "to_visit ((crawl_step ext md ^^ 0) st) = []
        \<and> crawl_loop ext md st = (crawl_step ext md ^^ 0) st"
      by (simp add: crawl_loop.simps)
    then show ?thesis by blast
  next
    case False
    from "1.IH" [OF False] obtain n where n: "n \<le> crawl_measure (crawl_step ext md st)"
      and e: "to_visit ((crawl_step ext md ^^ n) (crawl_step ext md st)) = []"
      and l: "crawl_loop ext md (crawl_step ext md st)
                = (crawl_step ext md ^^ n) (crawl_step ext md st)"
      by blast
    have "Suc n \<le> crawl_measure st"
      using n crawl_step_measure [OF False, of ext md] by simp
    moreover have "(crawl_step ext md ^^ Suc n) st = (crawl_step ext md ^^ n) (crawl_step ext md st)"
      by (simp add: funpow_swap1)
    moreover have "crawl_loop ext md st = crawl_loop ext md (crawl_step ext md st)"
      using False by (simp add: crawl_loop.simps [of ext md st])
    ultimately have "Suc n \<le> crawl_measure st
        \<and> to_visit ((crawl_step ext md ^^ Suc n) st) = []
        \<and> crawl_loop ext md st = (crawl_step ext md ^^ Suc n) st"
      using e l by simp
    then show ?thesis by blast
  qed
qed

lemma crawl_measure_init:
  "crawl_measure (crawl_init g start_urls) = 28050 + length (to_visit (crawl_init g start_urls))"
  by (simp add: crawl_measure_def crawl_init_def budget_left_def product_areas_def count_of_def
      MAX_PAGES_PER_PRODUCT_def Let_def)

lemma crawl_step_failed:
  assumes "to_visit st = item # rest"
    and "\<not> success (fst (fetch_page ext (glob st) (fst item)))"
  shows "all_pages (crawl_step ext md st) = all_pages st"
    and "to_visit (crawl_step ext md st) = rest"
  using assms(1)
  by (cases rule: crawl_step_cases [where ext = ext and md = md];
      simp add: crawl_visit_failed assms(2))+

text \<open>
  C5. From any start the loop reaches an empty frontier, after at most
  \<open>34 \<times> 11 \<times> 75\<close> iterations plus one per seed, whatever the requests return, and
  \<^verbatim>\<open>crawl_docs\<close> returns the state reached then. An iteration whose fetch fails leaves
  \<open>all_pages\<close> as it was and goes on with the rest of the frontier.
\<close>

theorem crawl_docs_terminates:
  "(\<exists>n\<le>28050 + length (to_visit (crawl_init g start_urls)).
       to_visit ((crawl_step ext md ^^ n) (crawl_init g start_urls)) = []
       \<and> crawl_docs ext g start_urls md =
           (all_pages ((crawl_step ext md ^^ n) (crawl_init g start_urls)),
            glob ((crawl_step ext md ^^ n) (crawl_init g start_urls))))
   \<and> (to_visit st = item # rest \<and> \<not> success (fst (fetch_page ext (glob st) (fst item)))
      \<longrightarrow> all_pages (crawl_step ext md st) = all_pages st
          \<and> to_visit (crawl_step ext md st) = rest
          \<and> crawl_loop ext md st = crawl_loop ext md (crawl_step ext md st))"
proof (intro conjI impI)
  from crawl_loop_iterates [of "crawl_init g start_urls" ext md]
  show "\<exists>n\<le>28050 + length (to_visit (crawl_init g start_urls)).
       to_visit ((crawl_step ext md ^^ n) (crawl_init g start_urls)) = []
       \<and> crawl_docs ext g start_urls md =
           (all_pages ((crawl_step ext md ^^ n) (crawl_init g start_urls)),
            glob ((crawl_step ext md ^^ n) (crawl_init g start_urls)))"
    unfolding crawl_measure_init crawl_docs_def Let_def by metis
next
  assume a: "to_visit st = item # rest \<and> \<not> success (fst (fetch_page ext (glob st) (fst item)))"
  then show "all_pages (crawl_step ext md st) = all_pages st"
    and "to_visit (crawl_step ext md st) = rest"
    using crawl_step_failed [of st item rest ext md] by simp_all
  from a show "crawl_loop ext md st = crawl_loop ext md (crawl_step ext md st)"
    by (simp add: crawl_loop.simps [of ext md st])
qed

theorem crawl_docs_terminates_witness:
  "to_visit one_seed = (dam_overview, 0, ''main'') # []
   \<and> \<not> success (fst (fetch_page offline (glob one_seed) (fst (dam_overview, 0::int, ''main''))))
   \<and> all_pages (crawl_step offline 1 one_seed) = all_pages one_seed
   \<and> to_visit (crawl_step offline 1 one_seed) = []
   \<and> crawl_docs offline empty_globals (Some [dam_overview]) 1
       = ([], empty_globals\<lparr>requests_sent := 1\<rparr>)"
proof -
  have h: "to_visit one_seed = (dam_overview, 0, ''main'') # []
      \<and> \<not> success (fst (fetch_page offline (glob one_seed) (fst (dam_overview, 0::int, ''main''))))"
    by (simp add: one_seed_def crawl_init_def fetch_offline network_error_page_def)
  from crawl_docs_terminates
    [of empty_globals "Some [dam_overview]" offline 1 one_seed "(dam_overview, 0, ''main'')" "[]"]
  have t: "all_pages (crawl_step offline 1 one_seed) = all_pages one_seed"
    "to_visit (crawl_step offline 1 one_seed) = []"
    "crawl_loop offline 1 one_seed = crawl_loop offline 1 (crawl_step offline 1 one_seed)"
    using h by simp_all
  have "crawl_loop offline 1 (crawl_step offline 1 one_seed) = crawl_step offline 1 one_seed"
    using t(2) by (simp add: crawl_loop.simps)
  then have "crawl_docs offline empty_globals (Some [dam_overview]) 1
       = ([], empty_globals\<lparr>requests_sent := 1\<rparr>)"
    using t(3) by (simp add: crawl_docs_def one_seed_def [symmetric] one_seed_step)
  with h t show ?thesis by simp
qed

section \<open>The per-area budget\<close>

lemma within_budget_count_of:
  assumes "within_budget st"
  shows "count_of (product_page_counts st) a \<le> MAX_PAGES_PER_PRODUCT"
proof (cases "map_of (product_page_counts st) a")
  case None
  then show ?thesis by (simp add: count_of_def MAX_PAGES_PER_PRODUCT_def)
next
  case (Some k)
  then have "(a, k) \<in> set (product_page_counts st)" by (rule map_of_SomeD)
  with assms have "k \<le> MAX_PAGES_PER_PRODUCT" by (auto simp: within_budget_def)
  with Some show ?thesis by (simp add: count_of_def)
qed

lemma crawl_step_within_budget:
  assumes "within_budget st"
  shows "within_budget (crawl_step ext md st)"
proof (cases "to_visit st")
  case Nil
  then show ?thesis using assms by (simp add: crawl_step_def)
next
  case (Cons item rest)
  then show ?thesis
  proof (cases rule: crawl_step_cases [where ext = ext and md = md])
    case skip
    then show ?thesis using assms by (simp add: within_budget_def)
  next
    case full
    then show ?thesis using assms by (simp add: within_budget_def)
  next
    case (visit counts1)
    let ?a = "get_product_area ext (fst item)"
    let ?n = "count_of (product_page_counts st) ?a"
    have "set (dict_set counts1 ?a (?n + 1)) \<subseteq> insert (?a, ?n + 1) (set counts1)"
      by (rule set_dict_set)
    with visit(6)
    have "set (dict_set counts1 ?a (?n + 1))
        \<subseteq> insert (?a, ?n + 1) (insert (?a, 0) (set (product_page_counts st)))"
      by blast
    moreover have "?n + 1 \<le> MAX_PAGES_PER_PRODUCT" using visit(3) by simp
    moreover have "(0::int) \<le> MAX_PAGES_PER_PRODUCT" by (simp add: MAX_PAGES_PER_PRODUCT_def)
    ultimately have "\<forall>e\<in>set (dict_set counts1 ?a (?n + 1)). snd e \<le> MAX_PAGES_PER_PRODUCT"
      using assms by (auto simp: within_budget_def)
    then show ?thesis
      by (simp add: within_budget_def visit(5) crawl_visit_fields)
  qed
qed

lemma crawl_run_within_budget:
  "within_budget st \<Longrightarrow> within_budget ((crawl_step ext md ^^ n) st)"
  by (induction n) (simp_all add: crawl_step_within_budget)

lemma crawl_init_within_budget: "within_budget (crawl_init g start_urls)"
  by (simp add: within_budget_def crawl_init_def Let_def)

text \<open>
  C4. After any number of iterations of the crawl loop, from any seed list, with any
  depth limit and whatever the requests return, no entry of \<open>product_page_counts\<close>
  exceeds \<open>MAX_PAGES_PER_PRODUCT\<close>, and an area without an entry counts 0. The same
  holds for the state in which \<^verbatim>\<open>crawl_docs\<close> returns.
\<close>

theorem crawl_budget_never_exceeded:
  "(\<forall>e\<in>set (product_page_counts ((crawl_step ext md ^^ n) (crawl_init g start_urls))).
       snd e \<le> MAX_PAGES_PER_PRODUCT)
   \<and> count_of (product_page_counts ((crawl_step ext md ^^ n) (crawl_init g start_urls))) a
       \<le> MAX_PAGES_PER_PRODUCT
   \<and> (\<forall>e\<in>set (product_page_counts (crawl_loop ext md (crawl_init g start_urls))).
       snd e \<le> MAX_PAGES_PER_PRODUCT)"
proof -
  have w: "within_budget ((crawl_step ext md ^^ k) (crawl_init g start_urls))" for k
    by (intro crawl_run_within_budget crawl_init_within_budget)
  from crawl_loop_iterates [of "crawl_init g start_urls" ext md]
  obtain k where "crawl_loop ext md (crawl_init g start_urls)
      = (crawl_step ext md ^^ k) (crawl_init g start_urls)" by blast
  with w [of k] w [of n] within_budget_count_of [OF w [of n], of a]
  show ?thesis by (simp add: within_budget_def)
qed

theorem crawl_budget_never_exceeded_witness:
  "(''acquia-dam'', 1) \<in> set (product_page_counts ((crawl_step offline 1 ^^ 1) one_seed))
   \<and> snd (''acquia-dam'', 1::int) \<le> MAX_PAGES_PER_PRODUCT"
proof -
  have m: "(''acquia-dam'', 1) \<in> set (product_page_counts ((crawl_step offline 1 ^^ 1) one_seed))"
    by (simp add: one_seed_step)
  from crawl_budget_never_exceeded
    [where ext = offline and md = 1 and n = 1 and g = empty_globals
       and start_urls = "Some [dam_overview]"]
  have "\<forall>e\<in>set (product_page_counts ((crawl_step offline 1 ^^ 1) one_seed)).
       snd e \<le> MAX_PAGES_PER_PRODUCT"
    by (simp add: one_seed_def)
  with m show ?thesis by blast
qed

section \<open>Visited before fetched\<close>

lemma crawl_step_visited_mono: "visited st \<subseteq> visited (crawl_step ext md st)"
proof (cases "to_visit st")
  case Nil
  then show ?thesis by (simp add: crawl_step_def)
next
  case (Cons item rest)
  then show ?thesis
    by (cases rule: crawl_step_cases [where ext = ext and md = md])
      (auto simp: crawl_visit_fields)
qed

lemma crawl_run_visited_mono: "visited st \<subseteq> visited ((crawl_step ext md ^^ k) st)"
proof (induction k)
  case 0
  show ?case by simp
next
  case (Suc k)
  with crawl_step_visited_mono [of "(crawl_step ext md ^^ k) st" ext md]
  show ?case by auto
qed

lemma crawl_step_attempt:
  assumes "attempts ext md st u"
  shows "u \<in> visited (crawl_step ext md st)"
    and "count_of (product_page_counts (crawl_step ext md st)) (get_product_area ext u)
           = count_of (product_page_counts st) (get_product_area ext u) + 1"
    and "glob (crawl_step ext md st) = snd (fetch_page ext (glob st) u)"
    and "\<not> success (fst (fetch_page ext (glob st) u)) \<Longrightarrow>
           all_pages (crawl_step ext md st) = all_pages st"
proof -
  from assms obtain item rest where tv: "to_visit st = item # rest" and u: "fst item = u"
    and nv: "u \<notin> visited st" and d: "\<not> md < fst (snd item)"
    and b: "count_of (product_page_counts st) (get_product_area ext u) < MAX_PAGES_PER_PRODUCT"
    by (auto simp: attempts_def split: list.splits)
  from tv have "u \<in> visited (crawl_step ext md st)
    \<and> count_of (product_page_counts (crawl_step ext md st)) (get_product_area ext u)
           = count_of (product_page_counts st) (get_product_area ext u) + 1
    \<and> glob (crawl_step ext md st) = snd (fetch_page ext (glob st) u)
    \<and> (\<not> success (fst (fetch_page ext (glob st) u)) \<longrightarrow>
           all_pages (crawl_step ext md st) = all_pages st)"
  proof (cases rule: crawl_step_cases [where ext = ext and md = md])
    case skip
    with nv d u show ?thesis by simp
  next
    case full
    with b u show ?thesis by simp
  next
    case (visit counts1)
    then show ?thesis
      using u by (simp add: crawl_visit_fields count_of_dict_set crawl_visit_failed)
  qed
  then show "u \<in> visited (crawl_step ext md st)"
    and "count_of (product_page_counts (crawl_step ext md st)) (get_product_area ext u)
           = count_of (product_page_counts st) (get_product_area ext u) + 1"
    and "glob (crawl_step ext md st) = snd (fetch_page ext (glob st) u)"
    and "\<not> success (fst (fetch_page ext (glob st) u)) \<Longrightarrow>
           all_pages (crawl_step ext md st) = all_pages st"
    by simp_all
qed

lemma crawl_step_no_attempt:
  assumes "\<forall>v. \<not> attempts ext md st v"
  shows "glob (crawl_step ext md st) = glob st"
    and "visited (crawl_step ext md st) = visited st"
    and "product_page_counts (crawl_step ext md st) = product_page_counts st"
proof -
  have "glob (crawl_step ext md st) = glob st \<and> visited (crawl_step ext md st) = visited st
      \<and> product_page_counts (crawl_step ext md st) = product_page_counts st"
  proof (cases "to_visit st")
    case Nil
    then show ?thesis by (simp add: crawl_step_def)
  next
    case (Cons item rest)
    then show ?thesis
    proof (cases rule: crawl_step_cases [where ext = ext and md = md])
      case skip
      then show ?thesis by simp
    next
      case full
      then show ?thesis by simp
    next
      case (visit counts1)
      then have "attempts ext md st (fst item)"
        using Cons by (simp add: attempts_def)
      with assms show ?thesis by blast
    qed
  qed
  then show "glob (crawl_step ext md st) = glob st"
    and "visited (crawl_step ext md st) = visited st"
    and "product_page_counts (crawl_step ext md st) = product_page_counts st"
    by simp_all
qed

text \<open>
  C8. An iteration that fetches \<open>u\<close> has marked \<open>u\<close> visited and counted it against its
  product area, whether the fetch succeeds or not; when the fetch fails the page map
  stays as it was. An iteration that fetches nothing leaves the module state, the
  visited set and the counters alone. And once an iteration has fetched \<open>u\<close>, no later
  iteration of the same run fetches \<open>u\<close> again.
\<close>

theorem crawl_fetch_after_marking:
  "(attempts ext md st u \<longrightarrow>
      u \<in> visited (crawl_step ext md st)
      \<and> count_of (product_page_counts (crawl_step ext md st)) (get_product_area ext u)
          = count_of (product_page_counts st) (get_product_area ext u) + 1
      \<and> glob (crawl_step ext md st) = snd (fetch_page ext (glob st) u)
      \<and> (\<not> success (fst (fetch_page ext (glob st) u)) \<longrightarrow>
           all_pages (crawl_step ext md st) = all_pages st))
   \<and> ((\<forall>v. \<not> attempts ext md st v) \<longrightarrow>
        glob (crawl_step ext md st) = glob st \<and> visited (crawl_step ext md st) = visited st
        \<and> product_page_counts (crawl_step ext md st) = product_page_counts st)
   \<and> (attempts ext md ((crawl_step ext md ^^ i) st) u \<longrightarrow>
        \<not> attempts ext md ((crawl_step ext md ^^ (i + Suc k)) st) u)"
proof (intro conjI impI)
  assume a: "attempts ext md st u"
  from crawl_step_attempt [OF a]
  show "u \<in> visited (crawl_step ext md st)"
    and "count_of (product_page_counts (crawl_step ext md st)) (get_product_area ext u)
          = count_of (product_page_counts st) (get_product_area ext u) + 1"
    and "glob (crawl_step ext md st) = snd (fetch_page ext (glob st) u)"
    by simp_all
  assume "\<not> success (fst (fetch_page ext (glob st) u))"
  then show "all_pages (crawl_step ext md st) = all_pages st"
    by (rule crawl_step_attempt(4) [OF a])
next
  assume n: "\<forall>v. \<not> attempts ext md st v"
  from crawl_step_no_attempt [OF n]
  show "glob (crawl_step ext md st) = glob st" and "visited (crawl_step ext md st) = visited st"
    and "product_page_counts (crawl_step ext md st) = product_page_counts st"
    by simp_all
next
  let ?s = "(crawl_step ext md ^^ i) st"
  assume a: "attempts ext md ?s u"
  have "u \<in> visited (crawl_step ext md ?s)"
    by (rule crawl_step_attempt(1) [OF a])
  then have "u \<in> visited ((crawl_step ext md ^^ k) (crawl_step ext md ?s))"
    using crawl_run_visited_mono by blast
  moreover have "(crawl_step ext md ^^ (Suc k + i)) st = (crawl_step ext md ^^ Suc k) ?s"
    by (simp only: funpow_add o_apply)
  then have "(crawl_step ext md ^^ (i + Suc k)) st
      = (crawl_step ext md ^^ k) (crawl_step ext md ?s)"
    by (simp add: funpow_swap1 add.commute)
  ultimately show "\<not> attempts ext md ((crawl_step ext md ^^ (i + Suc k)) st) u"
    by (auto simp: attempts_def split: list.splits)
qed

theorem crawl_fetch_after_marking_witness:
  "attempts offline 1 one_seed dam_overview
   \<and> \<not> success (fst (fetch_page offline (glob one_seed) dam_overview))
   \<and> dam_overview \<in> visited (crawl_step offline 1 one_seed)
   \<and> count_of (product_page_counts one_seed) ''acquia-dam'' = 0
   \<and> count_of (product_page_counts (crawl_step offline 1 one_seed)) ''acquia-dam'' = 1
   \<and> all_pages (crawl_step offline 1 one_seed) = all_pages one_seed
   \<and> \<not> attempts offline 1 ((crawl_step offline 1 ^^ (0 + Suc 0)) one_seed) dam_overview"
proof -
  have a: "attempts offline 1 one_seed dam_overview"
    by (simp add: attempts_def one_seed_def crawl_init_def area_dam_overview count_of_def
        MAX_PAGES_PER_PRODUCT_def)
  have f: "\<not> success (fst (fetch_page offline (glob one_seed) dam_overview))"
    by (simp add: one_seed_def crawl_init_def fetch_offline network_error_page_def)
  have z: "count_of (product_page_counts one_seed) ''acquia-dam'' = 0"
    by (simp add: one_seed_def crawl_init_def count_of_def)
  from crawl_fetch_after_marking
    [where ext = offline and md = 1 and st = one_seed and u = dam_overview and i = 0 and k = 0]
    a f z
  show ?thesis by (simp add: area_dam_overview)
qed

section \<open>The frontier holds each discovered link once\<close>

lemma count_list_distinct: "distinct xs \<Longrightarrow> x \<in> set xs \<Longrightarrow> count_list xs x = 1"
  by (induction xs) auto

lemma distinct_count_list: "(\<forall>x\<in>set xs. count_list xs x = 1) \<Longrightarrow> distinct xs"
proof (induction xs)
  case Nil
  show ?case by simp
next
  case (Cons a xs)
  have a: "count_list xs a = 0" using Cons.prems by simp
  then have "a \<notin> set xs" by (simp add: count_list_0_iff)
  moreover have "\<forall>x\<in>set xs. count_list xs x = 1"
  proof
    fix x assume x: "x \<in> set xs"
    with \<open>a \<notin> set xs\<close> have "a \<noteq> x" by blast
    moreover from Cons.prems x have "count_list (a # xs) x = 1" by simp
    ultimately show "count_list xs x = 1" by simp
  qed
  ultimately show ?case using Cons.IH by simp
qed

lemma add_to_cache_page_cache:
  assumes "add_to_cache ext cap g u pd = Inr g'"
  shows "set (page_cache g') \<subseteq> insert (u, pd) (set (page_cache g))"
proof -
  have del: "set (dict_del (page_cache g) k) \<subseteq> set (page_cache g)" for k
    by (auto simp: dict_del_def)
  show ?thesis
  proof (cases "cap \<le> int (length (page_cache g))")
    case True
    with assms obtain e d where c: "page_cache g = e # d"
      by (cases "page_cache g") (auto simp: add_to_cache_def)
    with True assms
    have "page_cache g' = dict_set (dict_del (page_cache g) (fst e)) u pd"
      by (auto simp: add_to_cache_def cache_store_def)
    with del [of "fst e"] set_dict_set [of "dict_del (page_cache g) (fst e)" u pd]
    show ?thesis by auto
  next
    case False
    with assms have "page_cache g' = dict_set (page_cache g) u pd"
      by (auto simp: add_to_cache_def cache_store_def)
    with set_dict_set [of "page_cache g" u pd] show ?thesis by simp
  qed
qed

lemma add_to_cache_links_distinct:
  assumes "cache_links_distinct g" and "distinct (links pd)"
    and "add_to_cache ext cap g u pd = Inr g'"
  shows "cache_links_distinct g'"
  using add_to_cache_page_cache [OF assms(3)] assms(1,2)
  by (auto simp: cache_links_distinct_def)

lemma distinct_split_take:
  assumes "distinct xs"
  shows "distinct (take m (filter P xs) @ take n (filter (\<lambda>x. \<not> P x) xs))"
proof -
  have "set (take m (filter P xs)) \<subseteq> {x. P x}"
    using set_take_subset [of m "filter P xs"] by auto
  moreover have "set (take n (filter (\<lambda>x. \<not> P x) xs)) \<subseteq> {x. \<not> P x}"
    using set_take_subset [of n "filter (\<lambda>x. \<not> P x) xs"] by auto
  ultimately have "set (take m (filter P xs)) \<inter> set (take n (filter (\<lambda>x. \<not> P x) xs)) = {}"
    by blast
  with assms show ?thesis by simp
qed

lemma fetch_page_links_distinct:
  assumes "cache_links_distinct g"
  shows "distinct (links (fst (fetch_page ext g u)))"
    and "cache_links_distinct (snd (fetch_page ext g u))"
proof -
  have "distinct (links (fst (fetch_page ext g u)))
      \<and> cache_links_distinct (snd (fetch_page ext g u))"
  proof (cases "map_of (page_cache g) u")
    case (Some pd)
    then have "(u, pd) \<in> set (page_cache g)" by (rule map_of_SomeD)
    with assms have "distinct (links pd)" by (auto simp: cache_links_distinct_def)
    with Some assms show ?thesis by (simp add: fetch_page_def)
  next
    case None
    let ?g1 = "g\<lparr>requests_sent := requests_sent g + 1\<rparr>"
    have g1: "cache_links_distinct ?g1"
      using assms by (simp add: cache_links_distinct_def)
    show ?thesis
    proof (cases "http_get ext (requests_sent g) u")
      case (RequestException e)
      with None g1 show ?thesis
        by (simp add: fetch_page_def network_error_page_def Let_def)
    next
      case (OtherException e)
      with None g1 show ?thesis
        by (simp add: fetch_page_def parse_error_page_def Let_def)
    next
      case (Html t c hrefs)
      let ?found = "filter (\<lambda>full_url. is_docs_url ext full_url \<and> full_url \<noteq> u) hrefs"
      let ?g2 = "?g1\<lparr>discovered_urls := discovered_urls ?g1 \<union> set ?found\<rparr>"
      let ?result = "\<lparr>url = u, title = t, content = c, links = remdups ?found, success = True\<rparr>"
      have g2: "cache_links_distinct ?g2"
        using assms by (simp add: cache_links_distinct_def)
      show ?thesis
      proof (cases "add_to_cache ext CACHE_SIZE ?g2 u ?result")
        case (Inl e)
        with None Html g2 show ?thesis
          by (cases e) (simp add: fetch_page_def parse_error_page_def Let_def)
      next
        case (Inr g3)
        have "cache_links_distinct g3"
          by (rule add_to_cache_links_distinct [OF g2 _ Inr]) simp
        with None Html Inr show ?thesis
          by (simp add: fetch_page_def Let_def)
      qed
    qed
  qed
  then show "distinct (links (fst (fetch_page ext g u)))"
    and "cache_links_distinct (snd (fetch_page ext g u))" by simp_all
qed

lemma new_items_urls:
  "map fst (new_items ext st depth area pd) =
     take 25 (filter (\<lambda>l. get_product_area ext l = area)
       (filter (\<lambda>l. l \<notin> visited st \<and> l \<notin> set (map fst (to_visit st))) (links pd))) @
     take 8 (filter (\<lambda>l. get_product_area ext l \<noteq> area)
       (filter (\<lambda>l. l \<notin> visited st \<and> l \<notin> set (map fst (to_visit st))) (links pd)))"
  by (simp add: new_items_def Let_def take_map [symmetric] comp_def)

lemma new_items_fresh:
  assumes "l \<in> set (map fst (new_items ext st depth area pd))"
  shows "l \<notin> visited st" and "l \<notin> set (map fst (to_visit st))"
proof -
  let ?fresh = "filter (\<lambda>l. l \<notin> visited st \<and> l \<notin> set (map fst (to_visit st))) (links pd)"
  let ?same = "filter (\<lambda>l. get_product_area ext l = area) ?fresh"
  let ?other = "filter (\<lambda>l. get_product_area ext l \<noteq> area) ?fresh"
  from assms have "l \<in> set (take 25 ?same) \<or> l \<in> set (take 8 ?other)"
    unfolding new_items_urls by (simp only: set_append Un_iff)
  then have "l \<in> set ?same \<or> l \<in> set ?other"
    by (blast dest: in_set_takeD)
  then have "l \<in> set ?fresh"
    by (simp only: set_filter mem_Collect_eq) blast
  then have "l \<notin> visited st \<and> l \<notin> set (map fst (to_visit st))"
    by (simp del: set_map)
  then show "l \<notin> visited st" and "l \<notin> set (map fst (to_visit st))" by blast+
qed

lemma new_items_distinct:
  assumes "distinct (links pd)"
  shows "distinct (map fst (new_items ext st depth area pd))"
  unfolding new_items_urls using assms
  by (intro distinct_split_take) simp

lemma new_items_depth: "item \<in> set (new_items ext st depth area pd) \<Longrightarrow> fst (snd item) = depth + 1"
  by (auto simp: new_items_def Let_def)

lemma frontier_pop:
  assumes "frontier_inv P st" and "to_visit st = item # rest"
    and "visited st' \<subseteq> insert (fst item) (visited st)" and "to_visit st' = rest"
  shows "frontier_inv P st'"
  unfolding frontier_inv_def
proof (intro ballI impI)
  fix x assume x: "x \<in> set (to_visit st')" and p: "P x"
  from x assms(2,4) have "x \<in> set (to_visit st)" by simp
  with assms(1) p have nv: "fst x \<notin> visited st"
    and c: "count_list (map fst (item # rest)) (fst x) = 1"
    by (auto simp: frontier_inv_def assms(2))
  have "fst x \<in> set (map fst rest)"
    using x assms(4) by auto
  then have "count_list (map fst rest) (fst x) \<noteq> 0"
    by (simp only: count_list_0_iff not_not)
  with c have ne: "fst item \<noteq> fst x" and c': "count_list (map fst rest) (fst x) = 1"
    by (auto split: if_splits)
  from ne nv assms(3) have "fst x \<notin> visited st'" by auto
  with c' show "fst x \<notin> visited st' \<and> count_list (map fst (to_visit st')) (fst x) = 1"
    by (simp add: assms(4))
qed

lemma frontier_push:
  assumes "frontier_inv P st" and "distinct (map fst new)"
    and "\<forall>l\<in>set (map fst new). l \<notin> visited st \<and> l \<notin> set (map fst (to_visit st))"
    and "visited st' = visited st" and "to_visit st' = to_visit st @ new"
  shows "frontier_inv P st'"
  unfolding frontier_inv_def
proof (intro ballI impI)
  fix x assume x: "x \<in> set (to_visit st')" and p: "P x"
  then consider "x \<in> set (to_visit st)" | "x \<in> set new" by (auto simp: assms(5))
  then show "fst x \<notin> visited st' \<and> count_list (map fst (to_visit st')) (fst x) = 1"
  proof cases
    case 1
    with assms(1) p have "fst x \<notin> visited st"
      and "count_list (map fst (to_visit st)) (fst x) = 1"
      by (auto simp: frontier_inv_def)
    moreover have "fst x \<in> set (map fst (to_visit st))"
      using 1 by auto
    then have "fst x \<notin> set (map fst new)"
      using assms(3) by blast
    ultimately show ?thesis by (simp add: assms(4,5))
  next
    case 2
    then have m: "fst x \<in> set (map fst new)" by simp
    with assms(3) have "fst x \<notin> visited st" and "fst x \<notin> set (map fst (to_visit st))"
      by blast+
    moreover have "count_list (map fst new) (fst x) = 1"
      using assms(2) m by (rule count_list_distinct)
    ultimately show ?thesis by (simp add: assms(4,5))
  qed
qed

lemma crawl_visit_frontier:
  assumes "frontier_inv P st0" and "to_visit st0 = item # rest"
    and "to_visit st = rest" and "visited st = visited st0" and "glob st = glob st0"
    and "cache_links_distinct (glob st0)"
  shows "frontier_inv P (crawl_visit ext md st (fst item) depth area n)"
proof -
  let ?page = "fst (fetch_page ext (glob st) (fst item))"
  let ?st1 = "st\<lparr>visited := insert (fst item) (visited st)\<rparr>"
  let ?new = "new_items ext ?st1 depth area ?page"
  let ?st' = "crawl_visit ext md st (fst item) depth area n"
  have popped: "frontier_inv P ?st1"
    by (rule frontier_pop [OF assms(1,2)]) (simp_all add: assms(3,4))
  show ?thesis
  proof (cases "success ?page \<and> depth < md")
    case True
    have d: "distinct (map fst ?new)"
      using fetch_page_links_distinct(1) [of "glob st" ext "fst item"] assms(5,6)
      by (intro new_items_distinct) simp
    have f: "\<forall>l\<in>set (map fst ?new). l \<notin> visited ?st1 \<and> l \<notin> set (map fst (to_visit ?st1))"
      using new_items_fresh [of _ ext ?st1 depth area ?page] by blast
    show ?thesis
    proof (rule frontier_push [OF popped d f])
      show "visited ?st' = visited ?st1" by (simp add: crawl_visit_fields)
      show "to_visit ?st' = to_visit ?st1 @ ?new"
        using True by (simp add: crawl_visit_to_visit)
    qed
  next
    case False
    show ?thesis
    proof (rule frontier_pop [OF assms(1,2)])
      show "visited ?st' \<subseteq> insert (fst item) (visited st0)"
        by (simp add: crawl_visit_fields assms(4))
      show "to_visit ?st' = rest"
        by (simp only: crawl_visit_to_visit if_not_P [OF False] assms(3))
    qed
  qed
qed

lemma crawl_step_frontier:
  assumes "frontier_inv P st" and "cache_links_distinct (glob st)"
  shows "frontier_inv P (crawl_step ext md st)"
    and "cache_links_distinct (glob (crawl_step ext md st))"
proof -
  have "frontier_inv P (crawl_step ext md st)
      \<and> cache_links_distinct (glob (crawl_step ext md st))"
  proof (cases "to_visit st")
    case Nil
    then show ?thesis using assms by (simp add: crawl_step_def)
  next
    case (Cons item rest)
    then show ?thesis
    proof (cases rule: crawl_step_cases [where ext = ext and md = md])
      case skip
      have "frontier_inv P (st\<lparr>to_visit := rest\<rparr>)"
        by (rule frontier_pop [OF assms(1) Cons]) auto
      with skip assms(2) show ?thesis by simp
    next
      case full
      have "frontier_inv P (st\<lparr>to_visit := rest\<rparr>)"
        by (rule frontier_pop [OF assms(1) Cons]) auto
      with full assms(2) show ?thesis by simp
    next
      case (visit counts1)
      let ?st = "st\<lparr>to_visit := rest, product_page_counts := counts1\<rparr>"
      have "frontier_inv P (crawl_step ext md st)"
        unfolding visit(5)
        by (rule crawl_visit_frontier [OF assms(1) Cons _ _ _ assms(2)]) simp_all
      moreover have "cache_links_distinct (glob (crawl_step ext md st))"
        using fetch_page_links_distinct(2) [OF assms(2), of ext "fst item"]
        by (simp add: visit(5) crawl_visit_fields)
      ultimately show ?thesis by simp
    qed
  qed
  then show "frontier_inv P (crawl_step ext md st)"
    and "cache_links_distinct (glob (crawl_step ext md st))" by simp_all
qed

lemma crawl_run_frontier:
  assumes "frontier_inv P st" and "cache_links_distinct (glob st)"
  shows "frontier_inv P ((crawl_step ext md ^^ n) st)
       \<and> cache_links_distinct (glob ((crawl_step ext md ^^ n) st))"
proof (induction n)
  case 0
  show ?case using assms by simp
next
  case (Suc n)
  then have a: "frontier_inv P ((crawl_step ext md ^^ n) st)"
    and b: "cache_links_distinct (glob ((crawl_step ext md ^^ n) st))" by simp_all
  show ?case using crawl_step_frontier [OF a b, of ext md] by simp
qed

lemma crawl_step_depths:
  assumes "\<forall>item\<in>set (to_visit st). 0 \<le> fst (snd item)"
  shows "\<forall>item\<in>set (to_visit (crawl_step ext md st)). 0 \<le> fst (snd item)"
proof (cases "to_visit st")
  case Nil
  then show ?thesis by (simp add: crawl_step_def)
next
  case (Cons item rest)
  then show ?thesis
  proof (cases rule: crawl_step_cases [where ext = ext and md = md])
    case skip
    with assms Cons show ?thesis by simp
  next
    case full
    with assms Cons show ?thesis by simp
  next
    case (visit counts1)
    have "0 \<le> fst (snd item)" using assms Cons by simp
    then have "\<forall>x\<in>set (new_items ext st' (fst (snd item)) area pd). 0 \<le> fst (snd x)"
      for st' area pd
      using new_items_depth [of _ ext st' "fst (snd item)" area pd] by auto
    with assms Cons show ?thesis
      by (auto simp: visit(5) crawl_visit_to_visit)
  qed
qed

lemma crawl_run_depths:
  assumes "\<forall>item\<in>set (to_visit st). 0 \<le> fst (snd item)"
  shows "\<forall>item\<in>set (to_visit ((crawl_step ext md ^^ n) st)). 0 \<le> fst (snd item)"
proof (induction n)
  case 0
  show ?case using assms by simp
next
  case (Suc n)
  then show ?case using crawl_step_depths [of "(crawl_step ext md ^^ n) st" ext md] by simp
qed

lemma frontier_inv_all:
  assumes "frontier_inv (\<lambda>item. True) st"
  shows "distinct (map fst (to_visit st))" and "set (map fst (to_visit st)) \<inter> visited st = {}"
proof -
  have "\<forall>x\<in>set (map fst (to_visit st)). count_list (map fst (to_visit st)) x = 1"
    using assms by (auto simp: frontier_inv_def)
  then show "distinct (map fst (to_visit st))" by (rule distinct_count_list)
  show "set (map fst (to_visit st)) \<inter> visited st = {}"
    using assms by (auto simp: frontier_inv_def)
qed

text \<open>The cache the server starts with has duplicate-free link lists.\<close>

lemma startup_cache_links_distinct:
  "\<exists>g. initialize_memcached_cache ext empty_globals = Inr g \<and> cache_links_distinct g
       \<and> map fst (page_cache g) = [MEMCACHED_DOC_URL]"
  by (simp add: initialize_memcached_cache_def add_to_cache_def cache_store_def
      empty_globals_def CACHE_SIZE_def cache_links_distinct_def get_memcached_doc_data_def)

text \<open>
  C10, as the code has it. Seeds enter the frontier at depth 0 and a link found on a page of depth \<open>d\<close>
  enters it at depth \<open>d + 1\<close>, so the items of positive depth are the enqueued links.
  In a run that starts with a cache whose pages have duplicate-free link lists, after
  any number of iterations: no frontier item has a negative depth; the URL of every
  enqueued link is not visited and occurs in the frontier exactly once, seeds
  included; and when the seed list has no duplicates, the whole frontier is
  duplicate-free and disjoint from the visited set.
\<close>

theorem crawl_frontier_deduplicated:
  assumes "cache_links_distinct g"
  shows "(\<forall>item\<in>set (to_visit ((crawl_step ext md ^^ n) (crawl_init g (Some seeds)))).
            0 \<le> fst (snd item)
            \<and> (0 < fst (snd item) \<longrightarrow>
                 fst item \<notin> visited ((crawl_step ext md ^^ n) (crawl_init g (Some seeds)))
                 \<and> count_list
                     (map fst (to_visit ((crawl_step ext md ^^ n) (crawl_init g (Some seeds)))))
                     (fst item) = 1))
       \<and> (distinct seeds \<longrightarrow>
            distinct (map fst (to_visit ((crawl_step ext md ^^ n) (crawl_init g (Some seeds)))))
            \<and> set (map fst (to_visit ((crawl_step ext md ^^ n) (crawl_init g (Some seeds)))))
                \<inter> visited ((crawl_step ext md ^^ n) (crawl_init g (Some seeds))) = {})"
proof -
  let ?init = "crawl_init g (Some seeds)"
  let ?run = "(crawl_step ext md ^^ n) ?init"
  have c: "cache_links_distinct (glob ?init)"
    using assms by (simp add: crawl_init_def)
  have "frontier_inv (\<lambda>item. 0 < fst (snd item)) ?init"
    by (auto simp: frontier_inv_def crawl_init_def)
  from crawl_run_frontier [OF this c, where ext = ext and md = md and n = n]
  have enq: "frontier_inv (\<lambda>item. 0 < fst (snd item)) ?run" by simp
  have "\<forall>item\<in>set (to_visit ?init). 0 \<le> fst (snd item)"
    by (auto simp: crawl_init_def)
  from crawl_run_depths [OF this, where ext = ext and md = md and n = n]
  have dep: "\<forall>item\<in>set (to_visit ?run). 0 \<le> fst (snd item)" .
  have all: "distinct (map fst (to_visit ?run)) \<and> set (map fst (to_visit ?run)) \<inter> visited ?run = {}"
    if "distinct seeds"
  proof -
    have "frontier_inv (\<lambda>item. True) ?init"
      using that by (simp add: frontier_inv_def crawl_init_def comp_def count_list_distinct)
    from crawl_run_frontier [OF this c, where ext = ext and md = md and n = n]
    have "frontier_inv (\<lambda>item. True) ?run" by simp
    then show ?thesis using frontier_inv_all by blast
  qed
  show ?thesis
  proof (intro conjI ballI impI)
    fix item assume i: "item \<in> set (to_visit ?run)"
    with dep show "0 \<le> fst (snd item)" by blast
    assume "0 < fst (snd item)"
    with enq i show "fst item \<notin> visited ?run"
      and "count_list (map fst (to_visit ?run)) (fst item) = 1"
      unfolding frontier_inv_def by blast+
  next
    assume "distinct seeds"
    from all [OF this] show "distinct (map fst (to_visit ?run))"
      and "set (map fst (to_visit ?run)) \<inter> visited ?run = {}" by blast+
  qed
qed

lemma urlparse_site_factory_overview:
  "py_urlparse ''https://docs.acquia.com/site-factory/overview'' =
     \<lparr>netloc = ''docs.acquia.com'', path = ''/site-factory/overview''\<rparr>"
  by (simp add: urlparse_eval string_eval)

lemma linking_classified:
  "is_docs_url linking dam_overview" "is_docs_url linking site_factory_overview"
  "get_product_area linking dam_overview = ''acquia-dam''"
  "get_product_area linking site_factory_overview = ''site-factory''"
  by (simp_all add: linking_def offline_def dam_overview_def site_factory_overview_def
      urlparse_dam_overview urlparse_site_factory_overview urlparse_base classifier_eval
      string_eval)

lemma linking_fetch:
  "fetch_page linking empty_globals site_factory_overview =
     (\<lparr>url = site_factory_overview, title = ''T'', content = ''c'', links = [dam_overview],
       success = True\<rparr>,
      \<lparr>page_cache = [(site_factory_overview,
          \<lparr>url = site_factory_overview, title = ''T'', content = ''c'', links = [dam_overview],
            success = True\<rparr>)],
        url_to_cache_key = [(site_factory_overview, ''01234567'')],
        discovered_urls = {dam_overview}, requests_sent = 1\<rparr>)"
proof -
  have ne: "dam_overview \<noteq> site_factory_overview"
    by (simp add: dam_overview_def site_factory_overview_def)
  have "http_get linking 0 site_factory_overview =
      Html ''T'' ''c'' [dam_overview, site_factory_overview, dam_overview]"
    and "md5_hexdigest linking site_factory_overview = ''0123456789abcdef''"
    by (simp_all add: linking_def offline_def)
  then show ?thesis
    using ne
    by (simp add: fetch_page_def empty_globals_def linking_classified add_to_cache_def
        cache_store_def CACHE_SIZE_def Let_def)
qed

lemma linking_step:
  "crawl_step linking 1 (crawl_init empty_globals (Some [site_factory_overview])) =
     \<lparr>to_visit = [(dam_overview, 1, ''acquia-dam'')], visited = {site_factory_overview},
      all_pages = [(site_factory_overview, fst (fetch_page linking empty_globals site_factory_overview))],
      product_page_counts = [(''site-factory'', 1)],
      glob = snd (fetch_page linking empty_globals site_factory_overview)\<rparr>"
proof -
  have ne: "dam_overview \<noteq> site_factory_overview"
    by (simp add: dam_overview_def site_factory_overview_def)
  show ?thesis
    using ne
    by (simp add: crawl_step_def crawl_init_def crawl_visit_def new_items_def linking_classified
        linking_fetch MAX_PAGES_PER_PRODUCT_def Let_def)
qed

theorem crawl_frontier_deduplicated_witness:
  "cache_links_distinct empty_globals \<and> distinct [site_factory_overview]
   \<and> to_visit ((crawl_step linking 1 ^^ 1) (crawl_init empty_globals (Some [site_factory_overview])))
       = [(dam_overview, 1, ''acquia-dam'')]
   \<and> (0::int) < fst (snd (dam_overview, 1::int, ''acquia-dam''))
   \<and> dam_overview \<notin> visited
        ((crawl_step linking 1 ^^ 1) (crawl_init empty_globals (Some [site_factory_overview])))
   \<and> count_list (map fst (to_visit
        ((crawl_step linking 1 ^^ 1) (crawl_init empty_globals (Some [site_factory_overview])))))
        dam_overview = 1"
proof -
  let ?run = "(crawl_step linking 1 ^^ 1) (crawl_init empty_globals (Some [site_factory_overview]))"
  have c: "cache_links_distinct empty_globals"
    by (simp add: cache_links_distinct_def empty_globals_def)
  have d: "distinct [site_factory_overview]" by simp
  have tv: "to_visit ?run = [(dam_overview, 1, ''acquia-dam'')]"
    by (simp add: linking_step)
  then have m: "(dam_overview, 1, ''acquia-dam'') \<in> set (to_visit ?run)" by simp
  from crawl_frontier_deduplicated
    [OF c, where ext = linking and md = 1 and n = 1 and seeds = "[site_factory_overview]"]
  have "\<forall>item\<in>set (to_visit ?run). 0 \<le> fst (snd item)
            \<and> (0 < fst (snd item) \<longrightarrow>
                 fst item \<notin> visited ?run
                 \<and> count_list (map fst (to_visit ?run)) (fst item) = 1)"
    by blast
  from bspec [OF this m]
  have "dam_overview \<notin> visited ?run \<and> count_list (map fst (to_visit ?run)) dam_overview = 1"
    by simp
  with c d tv show ?thesis by simp
qed

text \<open>
  The same seed given twice: after the first iteration the second copy is still in the
  frontier and its URL is visited.
\<close>

theorem crawl_duplicate_seed_stays:
  "to_visit ((crawl_step offline 1 ^^ 1)
       (crawl_init empty_globals (Some [dam_overview, dam_overview])))
     = [(dam_overview, 0, ''main'')]
   \<and> visited ((crawl_step offline 1 ^^ 1)
       (crawl_init empty_globals (Some [dam_overview, dam_overview])))
     = {dam_overview}"
  by (simp add: crawl_step_def crawl_init_def area_dam_overview crawl_visit_def
      fetch_offline network_error_page_def MAX_PAGES_PER_PRODUCT_def Let_def)

section \<open>Search results\<close>

















end
